theory Spec2Isabelle
  imports Main
begin

section \<open>s3cat: errors and library functions on strings\<close>

text \<open>
  The program is one Go file, \<^verbatim>\<open>main.go\<close>. Strings are byte strings, as in Go
  (\<^typ>\<open>string\<close> is a list of 8-bit characters). Low-level failure causes of the operating
  system, of the readers and of the storage service are collected in \<open>cause\<close>; the errors the
  program itself builds with \<^verbatim>\<open>errors.New\<close> and \<^verbatim>\<open>fmt.Errorf\<close> are the
  constructors of \<open>error\<close>, one per message of the source.

  \<^verbatim>\<open>main\<close> is modelled phase by phase: pattern parsing, listing, the cache check, the
  download loop and the output loop. Flag parsing, the session and the diagnostic output
  of \<^verbatim>\<open>opts.Verbose\<close> on standard error are left out. The functions of the Go library
  and of the service that the program calls follow their documentation.
\<close>

datatype cause =
    ENOENT | ENOTDIR | EISDIR
  | EOF | ErrUnexpectedEOF | ErrHeader | ErrTooLong
  | ContextCanceled
  | Remote string

datatype error =
    InvalidPattern                \<comment> \<open>\<^verbatim>\<open>PATTERN must be a start with '/'\<close>\<close>
  | ParseFailed cause             \<comment> \<open>\<^verbatim>\<open>failed to parse PATTERN\<close>\<close>
  | ListFailed cause              \<comment> \<open>\<^verbatim>\<open>failed to list S3 objects\<close>\<close>
  | MkdirFailed cause             \<comment> \<open>\<^verbatim>\<open>failed to create directory\<close>\<close>
  | StatFailed cause              \<comment> \<open>\<^verbatim>\<open>failed to stat\<close>\<close>
  | NotADirectory string          \<comment> \<open>\<^verbatim>\<open>'dir' is not a directory\<close>\<close>
  | CreateFailed string cause     \<comment> \<open>\<^verbatim>\<open>failed to create local file\<close>\<close>
  | CloseFailed cause             \<comment> \<open>\<^verbatim>\<open>failed to close file\<close>\<close>
  | DownloadFailed string cause   \<comment> \<open>\<^verbatim>\<open>failed to download file\<close>\<close>
  | OpenFailed string cause       \<comment> \<open>\<^verbatim>\<open>failed to open\<close>\<close>
  | GzipFailed cause              \<comment> \<open>\<^verbatim>\<open>failed to open ... as gzip\<close>\<close>

subsection \<open>Package \<^verbatim>\<open>strings\<close> and \<^verbatim>\<open>path\<close>\<close>

text \<open>
  \<^verbatim>\<open>strings.HasSuffix(s, suffix)\<close> is
  \<^verbatim>\<open>len(s) >= len(suffix) && s[len(s)-len(suffix):] == suffix\<close>, and
  \<^verbatim>\<open>path.IsAbs(p)\<close> is \<^verbatim>\<open>len(p) > 0 && p[0] == '/'\<close>.
\<close>

definition HasSuffix :: "string \<Rightarrow> string \<Rightarrow> bool" where
  "HasSuffix s suffix =
     (length s \<ge> length suffix \<and> drop (length s - length suffix) s = suffix)"

definition IsAbs :: "string \<Rightarrow> bool" where
  "IsAbs p = (p \<noteq> [] \<and> hd p = CHR ''/'')"

text \<open>
  \<^verbatim>\<open>path.Clean\<close> is modelled by its documented rules: slashes separate elements, empty
  elements and \<^verbatim>\<open>.\<close> are dropped, \<^verbatim>\<open>..\<close> removes the element before it (at the
  start of a rooted path it is dropped, at the start of a relative one it is kept), the
  result of an empty path is \<^verbatim>\<open>.\<close>.
\<close>

fun splitSlash :: "string \<Rightarrow> string list" where
  "splitSlash [] = [[]]"
| "splitSlash (c # cs) =
     (if c = CHR ''/'' then [] # splitSlash cs
      else (case splitSlash cs of [] \<Rightarrow> [[c]] | x # xs \<Rightarrow> (c # x) # xs))"

fun joinSlash :: "string list \<Rightarrow> string" where
  "joinSlash [] = []"
| "joinSlash [x] = x"
| "joinSlash (x # y # ys) = x @ CHR ''/'' # joinSlash (y # ys)"

definition cleanStep :: "bool \<Rightarrow> string list \<Rightarrow> string \<Rightarrow> string list" where
  "cleanStep rooted stack c =
     (if c = [] \<or> c = ''.'' then stack
      else if c = ''..'' then
        (if stack \<noteq> [] \<and> last stack \<noteq> ''..'' then butlast stack
         else if rooted then stack
         else stack @ [c])
      else stack @ [c])"

definition Clean :: "string \<Rightarrow> string" where
  "Clean p =
     (if p = [] then ''.''
      else
        (let rooted = (hd p = CHR ''/'');
             stack = foldl (cleanStep rooted) [] (splitSlash p)
         in if rooted then CHR ''/'' # joinSlash stack
            else if stack = [] then ''.''
            else joinSlash stack))"

text \<open>
  \<^verbatim>\<open>path.Join\<close> ignores leading empty elements, joins the rest with slashes and cleans
  the result; with no non-empty element it returns the empty string.
  \<^verbatim>\<open>path.Dir\<close> cleans everything up to and including the last slash.
\<close>

definition Join :: "string list \<Rightarrow> string" where
  "Join elem =
     (let es = dropWhile (\<lambda>e. e = []) elem
      in if es = [] then [] else Clean (joinSlash es))"

definition Dir :: "string \<Rightarrow> string" where
  "Dir p = Clean (rev (dropWhile (\<lambda>c. c \<noteq> CHR ''/'') (rev p)))"

section \<open>Pattern parsing: \<^verbatim>\<open>parseArg\<close>, \<^verbatim>\<open>parseArgs\<close>\<close>

text \<open>
  \<^verbatim>\<open>parseArg\<close> rejects an argument that is not absolute, then reads \<^verbatim>\<open>arg[1:]\<close>
  byte by byte: while \<^verbatim>\<open>isBucket\<close> holds, a slash clears the flag and any other byte is
  appended to the bucket builder; afterwards every byte is appended to the prefix builder.
  \<^verbatim>\<open>ReadByte\<close> of a \<^verbatim>\<open>strings.Reader\<close> returns a byte or \<^verbatim>\<open>io.EOF\<close>.
\<close>

definition ReadByte :: "string \<Rightarrow> (cause + char) \<times> string" where
  "ReadByte r = (case r of [] \<Rightarrow> (Inl EOF, []) | b # r' \<Rightarrow> (Inr b, r'))"

function parseLoop :: "string \<Rightarrow> bool \<Rightarrow> string \<Rightarrow> string \<Rightarrow> error + string \<times> string" where
  "parseLoop r isBucket bb pb =
     (case ReadByte r of
        (Inl rberr, _) \<Rightarrow>
          if rberr = EOF then Inr (bb, pb) else Inl (ParseFailed rberr)
      | (Inr b, r') \<Rightarrow>
          if isBucket then
            (if b = CHR ''/'' then parseLoop r' False bb pb
             else parseLoop r' True (bb @ [b]) pb)
          else parseLoop r' False bb (pb @ [b]))"
  by pat_completeness auto
termination
  by (relation "measure (\<lambda>(r, isBucket, bb, pb). length r)")
     (auto simp: ReadByte_def split: list.splits)

definition parseArg :: "string \<Rightarrow> error + string \<times> string" where
  "parseArg arg =
     (if \<not> IsAbs arg then Inl InvalidPattern
      else parseLoop (tl arg) True [] [])"

text \<open>
  The request and the response of the storage service's paginated listing call, with the
  fields the program uses. Sizes are Go's \<^verbatim>\<open>int64\<close>; they are only compared, so the
  model takes integers.
\<close>

record ListObjectsV2Input =
  Bucket :: string
  Prefix :: string
  ContinuationToken :: "string option"

record s3Object =
  Key :: string
  Size :: int

record ListObjectsV2Output =
  Contents :: "s3Object list"
  NextContinuationToken :: "string option"

fun parseArgs :: "string list \<Rightarrow> error + ListObjectsV2Input list" where
  "parseArgs [] = Inr []"
| "parseArgs (arg # args) =
     (case parseArg arg of
        Inl err \<Rightarrow> Inl err
      | Inr (bucket, prefix) \<Rightarrow>
          (case parseArgs args of
             Inl err \<Rightarrow> Inl err
           | Inr inputs \<Rightarrow>
               Inr (\<lparr>Bucket = bucket, Prefix = prefix, ContinuationToken = None\<rparr> # inputs)))"

section \<open>Remote listing: \<^verbatim>\<open>listS3Object\<close>, \<^verbatim>\<open>listS3Objects\<close>\<close>

record objectWrapper =
  bucket :: string
  raw :: s3Object
  local :: bool

text \<open>
  The storage service is a parameter: a function from the request to an error or a page.
  \<^verbatim>\<open>listS3Object\<close> stores the token in the request, calls the service, wraps the page's
  entries with the request's bucket, and calls itself with the next token when there is one.
  Nothing bounds the recursion, so the model is a partial function: \<open>None\<close> is a call
  that never returns.
\<close>

type_synonym service = "ListObjectsV2Input \<Rightarrow> cause + ListObjectsV2Output"

definition wrap :: "ListObjectsV2Input \<Rightarrow> s3Object \<Rightarrow> objectWrapper" where
  "wrap input object = \<lparr>bucket = Bucket input, raw = object, local = False\<rparr>"

partial_function (option) listS3Object ::
  "service \<Rightarrow> ListObjectsV2Input \<Rightarrow> string option \<Rightarrow> (error + objectWrapper list) option" where
  "listS3Object s3c input token =
     (case s3c (input\<lparr>ContinuationToken := token\<rparr>) of
        Inl err \<Rightarrow> Some (Inl (ListFailed err))
      | Inr out \<Rightarrow>
          (let results = map (wrap input) (Contents out)
           in case NextContinuationToken out of
                None \<Rightarrow> Some (Inr results)
              | Some t \<Rightarrow>
                  Option.bind (listS3Object s3c (input\<lparr>ContinuationToken := token\<rparr>) (Some t))
                    (\<lambda>r. case r of
                           Inl err \<Rightarrow> Some (Inl err)
                         | Inr nextOut \<Rightarrow> Some (Inr (results @ nextOut)))))"

declare listS3Object.simps [code]

fun listLoop ::
  "service \<Rightarrow> ListObjectsV2Input list \<Rightarrow> objectWrapper list \<Rightarrow> (error + objectWrapper list) option" where
  "listLoop s3c [] results = Some (Inr results)"
| "listLoop s3c (input # inputs) results =
     (case listS3Object s3c input None of
        None \<Rightarrow> None
      | Some (Inl err) \<Rightarrow> Some (Inl err)
      | Some (Inr objects) \<Rightarrow> listLoop s3c inputs (results @ objects))"

definition listS3Objects ::
  "service \<Rightarrow> ListObjectsV2Input list \<Rightarrow> (error + objectWrapper list) option" where
  "listS3Objects s3c inputs = listLoop s3c inputs []"

text \<open>
  The pages a query produces, in cursor order: the page answered to the token, then the
  pages that follow its continuation token, up to the page that carries none.
\<close>

inductive pages :: "service \<Rightarrow> ListObjectsV2Input \<Rightarrow> string option \<Rightarrow> s3Object list list \<Rightarrow> bool" where
  lastPage:
    "s3c (input\<lparr>ContinuationToken := token\<rparr>) = Inr out \<Longrightarrow>
     NextContinuationToken out = None \<Longrightarrow>
     pages s3c input token [Contents out]"
| nextPage:
    "s3c (input\<lparr>ContinuationToken := token\<rparr>) = Inr out \<Longrightarrow>
     NextContinuationToken out = Some t \<Longrightarrow>
     pages s3c input (Some t) ps \<Longrightarrow>
     pages s3c input token (Contents out # ps)"

section \<open>The local file system\<close>

text \<open>
  The local disk is a map from cleaned path names to nodes. \<^verbatim>\<open>os.Stat\<close> reports the
  length of a regular file; for a directory the reported size depends on the system and is
  a parameter of the file system. A path below a regular file fails with \<open>ENOTDIR\<close>, any
  other missing path with \<open>ENOENT\<close>; only the latter satisfies \<^verbatim>\<open>os.IsNotExist\<close>.
  Permissions and failing devices are outside the model.
\<close>

datatype node = File string | Directory

record fileInfo =
  fi_Size :: int
  fi_IsDir :: bool

record filesystem =
  nodes :: "string \<Rightarrow> node option"
  dirSize :: int

function ancestors :: "string \<Rightarrow> string list" where
  "ancestors p =
     (let d = Dir p
      in if length d < length p then d # ancestors d
         else if d \<noteq> p then [d]
         else [])"
  by pat_completeness auto
termination
  by (relation "measure length") auto

definition isFile :: "filesystem \<Rightarrow> string \<Rightarrow> bool" where
  "isFile fs p = (case nodes fs p of Some (File bs) \<Rightarrow> True | _ \<Rightarrow> False)"

definition missing :: "filesystem \<Rightarrow> string \<Rightarrow> cause" where
  "missing fs p = (if list_ex (isFile fs) (ancestors p) then ENOTDIR else ENOENT)"

definition Stat :: "filesystem \<Rightarrow> string \<Rightarrow> cause + fileInfo" where
  "Stat fs p =
     (case nodes fs p of
        None \<Rightarrow> Inl (missing fs p)
      | Some (File bs) \<Rightarrow> Inr \<lparr>fi_Size = int (length bs), fi_IsDir = False\<rparr>
      | Some Directory \<Rightarrow> Inr \<lparr>fi_Size = dirSize fs, fi_IsDir = True\<rparr>)"

definition IsNotExist :: "cause \<Rightarrow> bool" where
  "IsNotExist err = (err = ENOENT)"

text \<open>
  \<^verbatim>\<open>os.MkdirAll\<close> creates the directory and every missing parent, and fails when the path
  or one of its parents is a regular file. \<^verbatim>\<open>os.Create\<close> creates the file or truncates
  it; it needs the parent directory and fails on a directory. The downloader writes the
  object's body through the open file from offset 0, which leaves bytes of an older,
  longer content behind it.
\<close>

definition MkdirAll :: "filesystem \<Rightarrow> string \<Rightarrow> cause + filesystem" where
  "MkdirAll fs p =
     (let ps = p # ancestors p
      in if list_ex (isFile fs) ps then Inl ENOTDIR
         else Inr (fs\<lparr>nodes := (\<lambda>q. if q \<in> set ps \<and> nodes fs q = None then Some Directory
                                     else nodes fs q)\<rparr>))"

definition Create :: "filesystem \<Rightarrow> string \<Rightarrow> cause + filesystem" where
  "Create fs p =
     (case nodes fs p of
        Some Directory \<Rightarrow> Inl EISDIR
      | _ \<Rightarrow>
          (case Stat fs (Dir p) of
             Inl err \<Rightarrow> Inl err
           | Inr fi \<Rightarrow>
               if fi_IsDir fi then Inr (fs\<lparr>nodes := (nodes fs)(p \<mapsto> File [])\<rparr>)
               else Inl ENOTDIR))"

definition content :: "filesystem \<Rightarrow> string \<Rightarrow> string" where
  "content fs p = (case nodes fs p of Some (File bs) \<Rightarrow> bs | _ \<Rightarrow> [])"

definition WriteAt :: "filesystem \<Rightarrow> string \<Rightarrow> string \<Rightarrow> filesystem" where
  "WriteAt fs p body =
     fs\<lparr>nodes := (nodes fs)(p \<mapsto> File (body @ drop (length body) (content fs p)))\<rparr>"

definition Open :: "filesystem \<Rightarrow> string \<Rightarrow> cause + node" where
  "Open fs p = (case nodes fs p of None \<Rightarrow> Inl (missing fs p) | Some f \<Rightarrow> Inr f)"

section \<open>Local cache check\<close>

definition LocalPath :: "objectWrapper \<Rightarrow> string \<Rightarrow> string" where
  "LocalPath w tmp = Join [tmp, bucket w, Key (raw w)]"

text \<open>
  The loop of \<^verbatim>\<open>main\<close> that sets \<^verbatim>\<open>object.local\<close>: the flag is
  \<^verbatim>\<open>err == nil && fi.Size() == *object.raw.Size\<close> for the result of \<^verbatim>\<open>os.Stat\<close> on
  the object's local path.
\<close>

definition isLocal :: "filesystem \<Rightarrow> string \<Rightarrow> objectWrapper \<Rightarrow> bool" where
  "isLocal fs tmp object =
     (case Stat fs (LocalPath object tmp) of
        Inl err \<Rightarrow> False
      | Inr fi \<Rightarrow> fi_Size fi = Size (raw object))"

definition checkLocal :: "filesystem \<Rightarrow> string \<Rightarrow> objectWrapper list \<Rightarrow> objectWrapper list" where
  "checkLocal fs tmp objects = map (\<lambda>object. object\<lparr>local := isLocal fs tmp object\<rparr>) objects"

section \<open>Output phase\<close>

text \<open>
  A reader is the bytes it delivers and the condition that ends it: \<open>None\<close> for the end
  of the data, or the error of the failing read, delivered by a read of its own. Reading
  an opened directory fails at once.
\<close>

type_synonym reader = "string \<times> cause option"

definition ReadFile :: "node \<Rightarrow> reader" where
  "ReadFile f = (case f of File bs \<Rightarrow> (bs, None) | Directory \<Rightarrow> ([], Some EISDIR))"

text \<open>
  \<^verbatim>\<open>bufio.Scanner\<close> with its default split function \<^verbatim>\<open>ScanLines\<close> and its default
  buffer limit \<^verbatim>\<open>MaxScanTokenSize = 64 * 1024\<close>. A line ends at a newline and loses one
  trailing carriage return; a last line without newline is a line too. When the buffer is
  full and holds no newline, scanning stops with \<open>ErrTooLong\<close>; when the reader fails,
  the bytes read so far are still split and scanning stops with the reader's error. The
  result is the lines for which \<^verbatim>\<open>Scan\<close> returned true and the value of
  \<^verbatim>\<open>scanner.Err()\<close> afterwards.
\<close>

definition maxTokenSize :: nat where
  "maxTokenSize = 64 * 1024"

definition dropCR :: "string \<Rightarrow> string" where
  "dropCR data = (if data \<noteq> [] \<and> last data = CHR 0x0D then butlast data else data)"

function scanLines :: "reader \<Rightarrow> string list \<times> cause option" where
  "scanLines (bs, e) =
     (let l = takeWhile (\<lambda>c. c \<noteq> CHR 0x0A) bs
      in if length l \<ge> maxTokenSize then ([], Some ErrTooLong)
         else if length l < length bs then
           (let (ls, err) = scanLines (drop (Suc (length l)) bs, e) in (dropCR l # ls, err))
         else if bs = [] then ([], e)
         else ([dropCR bs], e))"
  by pat_completeness auto
termination
  by (relation "measure (\<lambda>(bs, e). length bs)") auto

text \<open>
  \<^verbatim>\<open>gzip.NewReader\<close> reads the ten fixed bytes of the header and checks the two magic
  bytes and the compression method. Everything behind that check, the optional header
  fields and the compressed members, is the parameter \<open>inflate\<close>: it rejects the header
  or gives the reader of the decompressed bytes, which can end in an error.
\<close>

type_synonym inflater = "reader \<Rightarrow> cause + reader"

definition gzipNewReader :: "inflater \<Rightarrow> reader \<Rightarrow> cause + reader" where
  "gzipNewReader inflate r =
     (let bs = fst r
      in if length bs < 10 then
           Inl (case snd r of
                  Some err \<Rightarrow> err
                | None \<Rightarrow> if bs = [] then EOF else ErrUnexpectedEOF)
         else if bs ! 0 \<noteq> CHR 0x1F \<or> bs ! 1 \<noteq> CHR 0x8B \<or> bs ! 2 \<noteq> CHR 0x08 then Inl ErrHeader
         else inflate r)"

text \<open>
  The body of the output loop for one object. It opens the local file, wraps the reader in
  a gzip reader when the local path ends in \<^verbatim>\<open>.gz\<close>, and prints every line the scanner
  returns. \<^verbatim>\<open>logFatal\<close> ends the process on a failing open and on a failing
  \<^verbatim>\<open>gzip.NewReader\<close>; \<^verbatim>\<open>scanner.Err()\<close> is not looked at.
\<close>

definition emitObject ::
  "inflater \<Rightarrow> string \<Rightarrow> filesystem \<Rightarrow> objectWrapper \<Rightarrow> error + string list" where
  "emitObject inflate tmp fs object =
     (let fp = LocalPath object tmp
      in case Open fs fp of
           Inl err \<Rightarrow> Inl (OpenFailed fp err)
         | Inr f \<Rightarrow>
             if HasSuffix fp ''.gz'' then
               (case gzipNewReader inflate (ReadFile f) of
                  Inl err \<Rightarrow> Inl (GzipFailed err)
                | Inr reader \<Rightarrow> Inr (fst (scanLines reader)))
             else Inr (fst (scanLines (ReadFile f))))"

text \<open>
  The output loop: the objects in the order of the list, each with the lines printed for
  it, up to the first fatal error. Standard output is the concatenation of the lines.
\<close>

fun emit ::
  "inflater \<Rightarrow> string \<Rightarrow> filesystem \<Rightarrow> objectWrapper list \<Rightarrow>
     (objectWrapper \<times> string list) list \<times> error option" where
  "emit inflate tmp fs [] = ([], None)"
| "emit inflate tmp fs (object # objects) =
     (case emitObject inflate tmp fs object of
        Inl err \<Rightarrow> ([], Some err)
      | Inr ls \<Rightarrow>
          (let (chunks, r) = emit inflate tmp fs objects in ((object, ls) # chunks, r)))"

definition stdout :: "(objectWrapper \<times> string list) list \<Rightarrow> string list" where
  "stdout chunks = concat (map snd chunks)"

section \<open>Download phase\<close>

text \<open>
  The download loop of \<^verbatim>\<open>main\<close> runs one goroutine per object that is not local,
  under an \<^verbatim>\<open>errgroup\<close> with a shared context and behind the channel \<^verbatim>\<open>dsem\<close>.
  The model is an interleaving semantics. A task is in one of these phases:
  \<^item> \<open>Waiting\<close>: the loop has not reached the object;
  \<^item> \<open>Started\<close>: the loop has sent to \<^verbatim>\<open>dsem\<close> and called \<^verbatim>\<open>deg.Go\<close>;
  \<^item> \<open>Created\<close>: the task has checked the directory and created its file;
  \<^item> \<open>Returned r\<close>: the task function has returned \<open>r\<close>; its deferred functions have
    closed the file and received from \<^verbatim>\<open>dsem\<close>;
  \<^item> \<open>Done\<close>: the group has taken the result.
  The state holds the phases, the loop index, the number of values in the channel, the error
  of the group (the shared context is cancelled exactly when it is set), the error of a
  \<^verbatim>\<open>logFatal\<close> call (the process has ended), and the disk.
\<close>

datatype phase = Waiting | Started | Created | Returned "error option" | Done

record sched =
  phases :: "phase list"
  nxt :: nat
  dsem :: nat
  groupErr :: "error option"
  exited :: "error option"
  disk :: filesystem

text \<open>
  The steps are chosen by the scheduler and the environment. A download's outcome comes
  from the environment: success, or a failure that leaves some bytes in the file (a
  failure of the service or of the network, or the deadline of \<^verbatim>\<open>opts.Timeout\<close>); so
  does the result of closing the file. The remote store gives the body of each object.
  The directory check and the creation of the file are one step, the download call and the
  deferred functions another.
\<close>

datatype outcome = DlOk | DlFail cause string

datatype event =
    Admit
  | Prepare nat
  | Download nat outcome "cause option"
  | Record nat

type_synonym store = "string \<times> string \<Rightarrow> string"

text \<open>
  \<^verbatim>\<open>make(chan struct{}, n)\<close> panics for a negative \<open>n\<close>. A send to the channel goes
  through when the buffer has room. Only tasks receive from the channel, each once and
  after the send that admitted it, so no receiver ever waits for a send: with capacity 0
  no send goes through.
\<close>

definition makeChan :: "int \<Rightarrow> nat option" where
  "makeChan n = (if n < 0 then None else Some (nat n))"

definition admit :: "sched \<Rightarrow> sched" where
  "admit s = s\<lparr>phases := (phases s)[nxt s := Started], nxt := Suc (nxt s), dsem := Suc (dsem s)\<rparr>"

text \<open>
  The directory check of the task: it ends the process with \<^verbatim>\<open>logFatal\<close> in each of its
  three failing branches.
\<close>

definition ensureDir :: "filesystem \<Rightarrow> string \<Rightarrow> error + filesystem" where
  "ensureDir fs dir =
     (case Stat fs dir of
        Inl err \<Rightarrow>
          if IsNotExist err then
            (case MkdirAll fs dir of
               Inl err' \<Rightarrow> Inl (MkdirFailed err')
             | Inr fs' \<Rightarrow> Inr fs')
          else Inl (StatFailed err)
      | Inr fi \<Rightarrow>
          if \<not> fi_IsDir fi then Inl (NotADirectory dir) else Inr fs)"

definition prepare :: "string \<Rightarrow> objectWrapper \<Rightarrow> nat \<Rightarrow> sched \<Rightarrow> sched" where
  "prepare tmp object i s =
     (let fp = LocalPath object tmp;
          dir = Dir fp
      in case ensureDir (disk s) dir of
           Inl err \<Rightarrow> s\<lparr>exited := Some err\<rparr>
         | Inr fs \<Rightarrow>
             (case Create fs fp of
                Inl err \<Rightarrow>
                  s\<lparr>phases := (phases s)[i := Returned (Some (CreateFailed fp err))],
                    dsem := dsem s - 1, disk := fs\<rparr>
              | Inr fs' \<Rightarrow> s\<lparr>phases := (phases s)[i := Created], disk := fs'\<rparr>))"

text \<open>
  The download call of the task. Under a cancelled context it fails and writes nothing.
  The deferred close runs first and ends the process when it fails; then the task receives
  from \<^verbatim>\<open>dsem\<close>.
\<close>

definition download ::
  "string \<Rightarrow> store \<Rightarrow> objectWrapper \<Rightarrow> nat \<Rightarrow> outcome \<Rightarrow> cause option \<Rightarrow> sched \<Rightarrow> sched" where
  "download tmp remote object i out cl s =
     (let fp = LocalPath object tmp;
          (fs, r) =
            (if groupErr s \<noteq> None then (disk s, Some (DownloadFailed fp ContextCanceled))
             else case out of
                    DlOk \<Rightarrow> (WriteAt (disk s) fp (remote (bucket object, Key (raw object))), None)
                  | DlFail err bs \<Rightarrow>
                      ((disk s)\<lparr>nodes := (nodes (disk s))(fp \<mapsto> File bs)\<rparr>,
                       Some (DownloadFailed fp err)))
      in case cl of
           Some err \<Rightarrow> s\<lparr>exited := Some (CloseFailed err), disk := fs\<rparr>
         | None \<Rightarrow> s\<lparr>phases := (phases s)[i := Returned r], dsem := dsem s - 1, disk := fs\<rparr>)"

text \<open>
  The wrapper of \<^verbatim>\<open>errgroup.Group.Go\<close>: the first error returned is kept and cancels
  the context; later errors are dropped.
\<close>

definition record_result :: "nat \<Rightarrow> error option \<Rightarrow> sched \<Rightarrow> sched" where
  "record_result i r s =
     s\<lparr>phases := (phases s)[i := Done],
       groupErr := (case r of
                      None \<Rightarrow> groupErr s
                    | Some err \<Rightarrow> if groupErr s = None then Some err else groupErr s)\<rparr>"

definition step ::
  "nat \<Rightarrow> string \<Rightarrow> store \<Rightarrow> objectWrapper list \<Rightarrow> event \<Rightarrow> sched \<Rightarrow> sched option" where
  "step cap tmp remote todo ev s =
     (if exited s \<noteq> None then None
      else case ev of
        Admit \<Rightarrow>
          if nxt s < length todo \<and> dsem s < cap then Some (admit s) else None
      | Prepare i \<Rightarrow>
          if i < length todo \<and> phases s ! i = Started
          then Some (prepare tmp (todo ! i) i s) else None
      | Download i out cl \<Rightarrow>
          if i < length todo \<and> phases s ! i = Created
          then Some (download tmp remote (todo ! i) i out cl s) else None
      | Record i \<Rightarrow>
          if i < length todo then
            (case phases s ! i of
               Returned r \<Rightarrow> Some (record_result i r s)
             | _ \<Rightarrow> None)
          else None)"

fun run ::
  "nat \<Rightarrow> string \<Rightarrow> store \<Rightarrow> objectWrapper list \<Rightarrow> event list \<Rightarrow> sched \<Rightarrow> sched option" where
  "run cap tmp remote todo [] s = Some s"
| "run cap tmp remote todo (ev # evs) s =
     (case step cap tmp remote todo ev s of
        None \<Rightarrow> None
      | Some s' \<Rightarrow> run cap tmp remote todo evs s')"

text \<open>
  The loop skips the objects that are local. \<^verbatim>\<open>deg.Wait\<close> returns the error of the
  group once the loop is over and every task is done.
\<close>

definition todoOf :: "objectWrapper list \<Rightarrow> objectWrapper list" where
  "todoOf objects = filter (\<lambda>object. \<not> local object) objects"

definition initial :: "filesystem \<Rightarrow> objectWrapper list \<Rightarrow> sched" where
  "initial fs todo =
     \<lparr>phases = replicate (length todo) Waiting, nxt = 0, dsem = 0,
      groupErr = None, exited = None, disk = fs\<rparr>"

definition Wait :: "sched \<Rightarrow> error option option" where
  "Wait s =
     (if exited s = None \<and> list_all (\<lambda>ph. ph = Done) (phases s) then Some (groupErr s)
      else None)"

definition inflight :: "sched \<Rightarrow> nat" where
  "inflight s = length (filter (\<lambda>ph. ph = Started \<or> ph = Created) (phases s))"

text \<open>
  The download phase as \<^verbatim>\<open>main\<close> starts it: the channel is made with the capacity
  \<^verbatim>\<open>opts.Concurrency\<close> as the command line gave it, the tasks are the objects that are
  not local. A list of events is a schedule when each event can happen in turn.
\<close>

datatype progress = GatePanic | NoSchedule | Reached sched

definition downloads ::
  "int \<Rightarrow> string \<Rightarrow> store \<Rightarrow> filesystem \<Rightarrow> objectWrapper list \<Rightarrow> event list \<Rightarrow> progress" where
  "downloads concurrency tmp remote fs objects evs =
     (case makeChan concurrency of
        None \<Rightarrow> GatePanic
      | Some cap \<Rightarrow>
          (case run cap tmp remote (todoOf objects) evs (initial fs (todoOf objects)) of
             None \<Rightarrow> NoSchedule
           | Some s \<Rightarrow> Reached s))"

text \<open>
  The invariant of the gate: the loop index separates the tasks that wait from those that
  were admitted, and the channel holds one value for each task that is in flight.
\<close>

definition gate_inv :: "nat \<Rightarrow> objectWrapper list \<Rightarrow> sched \<Rightarrow> bool" where
  "gate_inv cap todo s =
     (length (phases s) = length todo \<and> nxt s \<le> length todo \<and>
      (\<forall>i < length todo. (i < nxt s) = (phases s ! i \<noteq> Waiting)) \<and>
      dsem s = inflight s \<and> dsem s \<le> cap)"

text \<open>
  The invariant of the local files, for runs in which nothing has failed: nothing has
  called \<^verbatim>\<open>logFatal\<close>, the group holds no error and no task has returned one. The file
  of a task that has created it is empty or holds the object's body; the file of a task
  that has returned holds the body unless another task with the same local path is between
  creation and download. Tasks with the same local path must then have the same body.
\<close>

definition body :: "store \<Rightarrow> objectWrapper \<Rightarrow> string" where
  "body remote object = remote (bucket object, Key (raw object))"

definition failed :: "sched \<Rightarrow> bool" where
  "failed s =
     (exited s \<noteq> None \<or> groupErr s \<noteq> None \<or>
      (\<exists>i < length (phases s). \<exists>err. phases s ! i = Returned (Some err)))"

definition files_inv :: "string \<Rightarrow> store \<Rightarrow> objectWrapper list \<Rightarrow> sched \<Rightarrow> bool" where
  "files_inv tmp remote todo s =
     (\<forall>i < length todo.
        (phases s ! i = Created \<longrightarrow>
           nodes (disk s) (LocalPath (todo ! i) tmp) = Some (File []) \<or>
           nodes (disk s) (LocalPath (todo ! i) tmp) = Some (File (body remote (todo ! i)))) \<and>
        (phases s ! i = Returned None \<or> phases s ! i = Done \<longrightarrow>
           nodes (disk s) (LocalPath (todo ! i) tmp) = Some (File (body remote (todo ! i))) \<or>
           (\<exists>j < length todo.
              LocalPath (todo ! j) tmp = LocalPath (todo ! i) tmp \<and> phases s ! j = Created)))"

definition same_body :: "string \<Rightarrow> store \<Rightarrow> objectWrapper list \<Rightarrow> bool" where
  "same_body tmp remote todo =
     (\<forall>i < length todo. \<forall>j < length todo.
        LocalPath (todo ! i) tmp = LocalPath (todo ! j) tmp \<longrightarrow>
        body remote (todo ! i) = body remote (todo ! j))"

section \<open>Concrete inputs\<close>

text \<open>A service that answers every query with two pages.\<close>

definition twoPages :: service where
  "twoPages input =
     (if ContinuationToken input = None
      then Inr \<lparr>Contents = [\<lparr>Key = ''a'', Size = 1\<rparr>, \<lparr>Key = ''b'', Size = 2\<rparr>],
                NextContinuationToken = Some ''t''\<rparr>
      else Inr \<lparr>Contents = [\<lparr>Key = ''c'', Size = 3\<rparr>], NextContinuationToken = None\<rparr>)"

text \<open>A disk with one file of the right size and one of the wrong size.\<close>

definition cacheDisk :: filesystem where
  "cacheDisk =
     \<lparr>nodes = [''/t'' \<mapsto> Directory, ''/t/bk'' \<mapsto> Directory,
               ''/t/bk/a'' \<mapsto> File ''xyz'', ''/t/bk/b'' \<mapsto> File ''old''],
      dirSize = 4096\<rparr>"

definition cacheObjects :: "objectWrapper list" where
  "cacheObjects =
     [\<lparr>bucket = ''bk'', raw = \<lparr>Key = ''a'', Size = 3\<rparr>, local = False\<rparr>,
      \<lparr>bucket = ''bk'', raw = \<lparr>Key = ''b'', Size = 5\<rparr>, local = False\<rparr>,
      \<lparr>bucket = ''bk'', raw = \<lparr>Key = ''c'', Size = 0\<rparr>, local = False\<rparr>]"

text \<open>
  Three objects to download into an empty disk, and a schedule with two slots in which the
  second object is downloaded first.
\<close>

definition emptyDisk :: filesystem where
  "emptyDisk = \<lparr>nodes = Map.empty, dirSize = 4096\<rparr>"

definition abc :: "objectWrapper list" where
  "abc =
     [\<lparr>bucket = ''bk'', raw = \<lparr>Key = ''a'', Size = 2\<rparr>, local = False\<rparr>,
      \<lparr>bucket = ''bk'', raw = \<lparr>Key = ''b'', Size = 2\<rparr>, local = False\<rparr>,
      \<lparr>bucket = ''bk'', raw = \<lparr>Key = ''c'', Size = 2\<rparr>, local = False\<rparr>]"

definition abcStore :: store where
  "abcStore = (\<lambda>(b, k). k @ [CHR 0x0A])"

definition bFirst :: "event list" where
  "bFirst =
     [Admit, Admit, Prepare 0, Prepare 1, Download 1 DlOk None, Record 1,
      Download 0 DlOk None, Admit, Record 0, Prepare 2, Download 2 DlOk None, Record 2]"

definition gzFolder :: objectWrapper where
  "gzFolder = \<lparr>bucket = ''bk'', raw = \<lparr>Key = ''x.gz/'', Size = 0\<rparr>, local = True\<rparr>"

definition gzFolderDisk :: filesystem where
  "gzFolderDisk =
     \<lparr>nodes = [''/t'' \<mapsto> Directory, ''/t/bk'' \<mapsto> Directory, ''/t/bk/x.gz'' \<mapsto> File []],
      dirSize = 4096\<rparr>"

definition logGz :: objectWrapper where
  "logGz = \<lparr>bucket = ''bk'', raw = \<lparr>Key = ''01.log.gz'', Size = 12\<rparr>, local = True\<rparr>"

definition logGzDisk :: filesystem where
  "logGzDisk =
     \<lparr>nodes = [''/t'' \<mapsto> Directory, ''/t/bk'' \<mapsto> Directory,
               ''/t/bk/01.log.gz'' \<mapsto> File ''not a gzip file''],
      dirSize = 4096\<rparr>"

definition longLine :: objectWrapper where
  "longLine = \<lparr>bucket = ''bk'', raw = \<lparr>Key = ''big.log'', Size = 70006\<rparr>, local = True\<rparr>"

definition shortLine :: objectWrapper where
  "shortLine = \<lparr>bucket = ''bk'', raw = \<lparr>Key = ''c'', Size = 3\<rparr>, local = True\<rparr>"

definition longLineDisk :: filesystem where
  "longLineDisk =
     \<lparr>nodes = [''/t'' \<mapsto> Directory, ''/t/bk'' \<mapsto> Directory,
               ''/t/bk/big.log'' \<mapsto> File (replicate 70000 (CHR ''a'') @ CHR 0x0A # ''tail'' @ [CHR 0x0A]),
               ''/t/bk/c'' \<mapsto> File (''ok'' @ [CHR 0x0A])],
      dirSize = 4096\<rparr>"

text \<open>An object at whose local path the disk has a directory of the object's size.\<close>

definition folderObject :: objectWrapper where
  "folderObject = \<lparr>bucket = ''bk'', raw = \<lparr>Key = ''d'', Size = 4096\<rparr>, local = True\<rparr>"

definition folderDisk :: filesystem where
  "folderDisk =
     \<lparr>nodes = [''/t'' \<mapsto> Directory, ''/t/bk'' \<mapsto> Directory, ''/t/bk/d'' \<mapsto> Directory,
               ''/t/bk/c'' \<mapsto> File (''ok'' @ [CHR 0x0A])],
      dirSize = 4096\<rparr>"

text \<open>
  Two objects, the first below \<^verbatim>\<open>d\<close>, and a disk on which \<^verbatim>\<open>d\<close> is a regular file.
\<close>

definition dirClash :: "objectWrapper list" where
  "dirClash =
     [\<lparr>bucket = ''bk'', raw = \<lparr>Key = ''d/x'', Size = 1\<rparr>, local = False\<rparr>,
      \<lparr>bucket = ''bk'', raw = \<lparr>Key = ''y'', Size = 1\<rparr>, local = False\<rparr>]"

definition dirClashDisk :: filesystem where
  "dirClashDisk =
     \<lparr>nodes = [''/t'' \<mapsto> Directory, ''/t/bk'' \<mapsto> Directory, ''/t/bk/d'' \<mapsto> File ''f''],
      dirSize = 4096\<rparr>"

text \<open>
  Two objects and a disk with an incomplete copy of the second; a schedule with one slot in
  which the download of the first object fails.
\<close>

definition ab :: "objectWrapper list" where
  "ab =
     [\<lparr>bucket = ''bk'', raw = \<lparr>Key = ''a'', Size = 2\<rparr>, local = False\<rparr>,
      \<lparr>bucket = ''bk'', raw = \<lparr>Key = ''b'', Size = 2\<rparr>, local = False\<rparr>]"

definition staleDisk :: filesystem where
  "staleDisk =
     \<lparr>nodes = [''/t'' \<mapsto> Directory, ''/t/bk'' \<mapsto> Directory, ''/t/bk/b'' \<mapsto> File ''o''],
      dirSize = 4096\<rparr>"

definition aFails :: "event list" where
  "aFails =
     [Admit, Prepare 0, Download 0 (DlFail (Remote ''500'') []) None, Record 0,
      Admit, Prepare 1, Download 1 DlOk None, Record 1]"

text \<open>
  Two keys that \<^verbatim>\<open>path.Join\<close> maps to the same local path, with bodies of different
  length, downloaded in turn.
\<close>

definition collide :: "objectWrapper list" where
  "collide =
     [\<lparr>bucket = ''bk'', raw = \<lparr>Key = ''x'', Size = 2\<rparr>, local = False\<rparr>,
      \<lparr>bucket = ''bk'', raw = \<lparr>Key = ''x/'', Size = 0\<rparr>, local = False\<rparr>]"

definition collideStore :: store where
  "collideStore = (\<lambda>(b, k). if k = ''x'' then ''hi'' else [])"

definition inTurn :: "event list" where
  "inTurn =
     [Admit, Prepare 0, Download 0 DlOk None, Record 0,
      Admit, Prepare 1, Download 1 DlOk None, Record 1]"

section \<open>Properties of pattern parsing\<close>

lemma parseLoop_Nil: "parseLoop [] isB bb pb = Inr (bb, pb)"
  by (simp add: ReadByte_def)

lemma parseLoop_Cons:
  "parseLoop (b # r) isB bb pb =
     (if isB then
        (if b = CHR ''/'' then parseLoop r False bb pb else parseLoop r True (bb @ [b]) pb)
      else parseLoop r False bb (pb @ [b]))"
  by (simp add: ReadByte_def)

declare parseLoop.simps [simp del]

lemma parseLoop_prefix: "parseLoop r False bb pb = Inr (bb, pb @ r)"
  by (induction r arbitrary: pb) (simp_all add: parseLoop_Nil parseLoop_Cons)

lemma parseLoop_bucket:
  "CHR ''/'' \<notin> set b \<Longrightarrow> parseLoop (b @ r) True bb pb = parseLoop r True (bb @ b) pb"
  by (induction b arbitrary: bb) (auto simp: parseLoop_Cons)

text \<open>
  C4. An argument \<^verbatim>\<open>/b/p\<close>, where \<^verbatim>\<open>b\<close> holds no slash, parses to the bucket
  \<^verbatim>\<open>b\<close> and the prefix \<^verbatim>\<open>p\<close>, which is everything after the first slash behind
  position 0, kept byte for byte; \<^verbatim>\<open>/b\<close> parses to the bucket \<^verbatim>\<open>b\<close> and the empty
  prefix; an argument that is empty or does not start with a slash is rejected with the
  invalid-pattern error.
\<close>

theorem parseArg_splits_at_first_slash:
  "(CHR ''/'' \<notin> set b \<longrightarrow>
      parseArg (CHR ''/'' # b @ CHR ''/'' # p) = Inr (b, p) \<and>
      parseArg (CHR ''/'' # b) = Inr (b, [])) \<and>
   ((arg = [] \<or> hd arg \<noteq> CHR ''/'') \<longrightarrow> parseArg arg = Inl InvalidPattern)"
proof -
  have "parseArg (CHR ''/'' # b @ CHR ''/'' # p) = Inr (b, p)" if "CHR ''/'' \<notin> set b"
    using parseLoop_bucket [OF that, of "CHR ''/'' # p" "[]" "[]"]
    by (simp add: parseArg_def IsAbs_def parseLoop_Cons parseLoop_prefix)
  moreover have "parseArg (CHR ''/'' # b) = Inr (b, [])" if "CHR ''/'' \<notin> set b"
    using parseLoop_bucket [OF that, of "[]" "[]" "[]"]
    by (simp add: parseArg_def IsAbs_def parseLoop_Nil)
  moreover have "parseArg arg = Inl InvalidPattern" if "arg = [] \<or> hd arg \<noteq> CHR ''/''"
    using that by (auto simp: parseArg_def IsAbs_def)
  ultimately show ?thesis by blast
qed

theorem parseArg_splits_at_first_slash_witness:
  "parseArg ''/b/p/q'' = Inr (''b'', ''p/q'') \<and> parseArg ''/b'' = Inr (''b'', [])
   \<and> parseArg ''b/p'' = Inl InvalidPattern \<and> parseArg [] = Inl InvalidPattern"
  using parseArg_splits_at_first_slash [of "''b''" "''p/q''" "''b/p''"]
        parseArg_splits_at_first_slash [of "''b''" "''p/q''" "[]"]
  by simp

section \<open>Properties of the listing\<close>

lemma wrap_token [simp]: "wrap (input\<lparr>ContinuationToken := c\<rparr>) = wrap input"
  by (rule ext) (simp add: wrap_def)

lemma listS3Object_pages:
  "pages s3c input token ps \<Longrightarrow>
   listS3Object s3c (input\<lparr>ContinuationToken := c\<rparr>) token =
     Some (Inr (map (wrap input) (concat ps)))"
proof (induction arbitrary: c rule: pages.induct)
  case (lastPage input token out)
  then show ?case
    by (subst listS3Object.simps) simp
next
  case (nextPage input token out t ps)
  show ?case
    by (subst listS3Object.simps) (simp add: nextPage.hyps nextPage.IH)
qed

lemma listLoop_pages:
  "list_all2 (\<lambda>input ps. pages s3c input None ps) inputs pss \<Longrightarrow>
   listLoop s3c inputs results =
     Some (Inr (results @ concat (map2 (\<lambda>input ps. map (wrap input) (concat ps)) inputs pss)))"
proof (induction arbitrary: results rule: list_all2_induct)
  case Nil
  then show ?case by simp
next
  case (Cons input inputs ps pss)
  have "listS3Object s3c input None = Some (Inr (map (wrap input) (concat ps)))"
    using listS3Object_pages [OF Cons.hyps(1), of "ContinuationToken input"] by simp
  then show ?case by (simp add: Cons.IH)
qed

text \<open>
  C5. When the service answers a query with a chain of pages that ends in a page without
  continuation token, \<^verbatim>\<open>listS3Object\<close> returns, and its result is the entries of all
  pages in cursor order, each once, wrapped with the bucket of the query: pagination
  terminates and neither drops nor repeats an entry. When this holds for every input
  pattern, \<^verbatim>\<open>listS3Objects\<close> returns the results of the patterns concatenated in argument
  order, with nothing removed.
\<close>

theorem listing_concatenates_pages:
  "(pages s3c input None ps \<longrightarrow>
      listS3Object s3c input None = Some (Inr (map (wrap input) (concat ps)))) \<and>
   (list_all2 (\<lambda>input ps. pages s3c input None ps) inputs pss \<longrightarrow>
      listS3Objects s3c inputs =
        Some (Inr (concat (map2 (\<lambda>input ps. map (wrap input) (concat ps)) inputs pss))))"
proof -
  have "listS3Object s3c input None = Some (Inr (map (wrap input) (concat ps)))"
    if "pages s3c input None ps"
    using listS3Object_pages [OF that, of "ContinuationToken input"] by simp
  then show ?thesis
    by (simp add: listS3Objects_def listLoop_pages)
qed

lemma twoPages_pages:
  "pages twoPages input None
     [[\<lparr>Key = ''a'', Size = 1\<rparr>, \<lparr>Key = ''b'', Size = 2\<rparr>], [\<lparr>Key = ''c'', Size = 3\<rparr>]]"
proof -
  let ?o1 = "\<lparr>Contents = [\<lparr>Key = ''a'', Size = 1\<rparr>, \<lparr>Key = ''b'', Size = 2\<rparr>],
                NextContinuationToken = Some ''t''\<rparr>"
  let ?o2 = "\<lparr>Contents = [\<lparr>Key = ''c'', Size = 3\<rparr>], NextContinuationToken = None\<rparr>"
  have "pages twoPages input (Some ''t'') [Contents ?o2]"
    by (rule pages.lastPage) (simp_all add: twoPages_def)
  then have "pages twoPages input None (Contents ?o1 # [Contents ?o2])"
    by (rule pages.nextPage [rotated 2]) (simp_all add: twoPages_def)
  then show ?thesis by simp
qed

theorem listing_concatenates_pages_witness:
  "listS3Object twoPages \<lparr>Bucket = ''bk'', Prefix = ''p'', ContinuationToken = None\<rparr> None =
     Some (Inr [\<lparr>bucket = ''bk'', raw = \<lparr>Key = ''a'', Size = 1\<rparr>, local = False\<rparr>,
                \<lparr>bucket = ''bk'', raw = \<lparr>Key = ''b'', Size = 2\<rparr>, local = False\<rparr>,
                \<lparr>bucket = ''bk'', raw = \<lparr>Key = ''c'', Size = 3\<rparr>, local = False\<rparr>]) \<and>
   listS3Objects twoPages
      [\<lparr>Bucket = ''bk'', Prefix = ''p'', ContinuationToken = None\<rparr>,
       \<lparr>Bucket = ''bk'', Prefix = '''', ContinuationToken = None\<rparr>] =
     Some (Inr [\<lparr>bucket = ''bk'', raw = \<lparr>Key = ''a'', Size = 1\<rparr>, local = False\<rparr>,
                \<lparr>bucket = ''bk'', raw = \<lparr>Key = ''b'', Size = 2\<rparr>, local = False\<rparr>,
                \<lparr>bucket = ''bk'', raw = \<lparr>Key = ''c'', Size = 3\<rparr>, local = False\<rparr>,
                \<lparr>bucket = ''bk'', raw = \<lparr>Key = ''a'', Size = 1\<rparr>, local = False\<rparr>,
                \<lparr>bucket = ''bk'', raw = \<lparr>Key = ''b'', Size = 2\<rparr>, local = False\<rparr>,
                \<lparr>bucket = ''bk'', raw = \<lparr>Key = ''c'', Size = 3\<rparr>, local = False\<rparr>])"
  using listing_concatenates_pages
     [of twoPages "\<lparr>Bucket = ''bk'', Prefix = ''p'', ContinuationToken = None\<rparr>"
         "[[\<lparr>Key = ''a'', Size = 1\<rparr>, \<lparr>Key = ''b'', Size = 2\<rparr>], [\<lparr>Key = ''c'', Size = 3\<rparr>]]"
         "[\<lparr>Bucket = ''bk'', Prefix = ''p'', ContinuationToken = None\<rparr>,
           \<lparr>Bucket = ''bk'', Prefix = '''', ContinuationToken = None\<rparr>]"
         "[[[\<lparr>Key = ''a'', Size = 1\<rparr>, \<lparr>Key = ''b'', Size = 2\<rparr>], [\<lparr>Key = ''c'', Size = 3\<rparr>]],
           [[\<lparr>Key = ''a'', Size = 1\<rparr>, \<lparr>Key = ''b'', Size = 2\<rparr>], [\<lparr>Key = ''c'', Size = 3\<rparr>]]]"]
    twoPages_pages
  by (simp add: wrap_def)

section \<open>Properties of the cache check\<close>

lemma checkLocal_nth:
  "i < length objects \<Longrightarrow>
   checkLocal fs tmp objects ! i = (objects ! i)\<lparr>local := isLocal fs tmp (objects ! i)\<rparr>"
  by (simp add: checkLocal_def)


lemma cache_paths:
  "Join [''/t'', ''bk'', ''a''] = ''/t/bk/a''"
  "Join [''/t'', ''bk'', ''b''] = ''/t/bk/b''"
  "Join [''/t'', ''bk'', ''c''] = ''/t/bk/c''"
  "Join [''/t'', ''bk'', ''d''] = ''/t/bk/d''"
  by (simp_all add: Join_def Clean_def cleanStep_def)



section \<open>Properties of the path functions\<close>

lemma HasSuffix_iff: "HasSuffix s suffix \<longleftrightarrow> (\<exists>pre. s = pre @ suffix)"
proof
  assume "HasSuffix s suffix"
  then have "s = take (length s - length suffix) s @ suffix"
    by (metis HasSuffix_def append_take_drop_id)
  then show "\<exists>pre. s = pre @ suffix" ..
next
  assume "\<exists>pre. s = pre @ suffix"
  then show "HasSuffix s suffix" by (auto simp: HasSuffix_def)
qed

lemma splitSlash_not_Nil [simp]: "splitSlash s \<noteq> []"
  by (induction s) (auto split: list.splits)

lemma splitSlash_no_slash: "CHR ''/'' \<notin> set b \<Longrightarrow> splitSlash b = [b]"
  by (induction b) auto

lemma splitSlash_append:
  "CHR ''/'' \<notin> set b \<Longrightarrow>
   splitSlash (a @ b) = butlast (splitSlash a) @ [last (splitSlash a) @ b]"
proof (induction a)
  case Nil
  then show ?case by (simp add: splitSlash_no_slash)
next
  case (Cons c a)
  then show ?case
    by (cases "splitSlash a") (auto split: list.splits)
qed

lemma foldl_cleanStep_snoc:
  "c \<noteq> [] \<Longrightarrow> c \<noteq> ''.'' \<Longrightarrow> c \<noteq> ''..'' \<Longrightarrow>
   foldl (cleanStep rooted) st (xs @ [c]) = foldl (cleanStep rooted) st xs @ [c]"
  by (simp add: cleanStep_def)

lemma joinSlash_snoc:
  "joinSlash (xs @ [c]) = (if xs = [] then c else joinSlash xs @ CHR ''/'' # c)"
  by (induction xs rule: joinSlash.induct) auto

lemma Clean_keeps_suffix:
  assumes "CHR ''/'' \<notin> set suffix" and "3 \<le> length suffix"
  shows "HasSuffix (Clean (pre @ suffix)) suffix"
proof -
  let ?c = "last (splitSlash pre) @ suffix"
  have c: "?c \<noteq> []" "?c \<noteq> ''.''" "?c \<noteq> ''..''"
    using assms(2) by (auto simp: append_eq_Cons_conv)
  have ne: "pre @ suffix \<noteq> []"
    using assms(2) by auto
  have "\<exists>st. foldl (cleanStep rooted) [] (splitSlash (pre @ suffix)) = st @ [?c]" for rooted
    by (simp only: splitSlash_append [OF assms(1)] foldl_cleanStep_snoc [OF c]) blast
  then obtain st where st:
    "foldl (cleanStep (hd (pre @ suffix) = CHR ''/'')) [] (splitSlash (pre @ suffix)) = st @ [?c]"
    by blast
  have "\<exists>x. joinSlash (st @ [?c]) = x @ suffix"
    by (simp add: joinSlash_snoc)
  then obtain x where x: "joinSlash (st @ [?c]) = x @ suffix" ..
  have "Clean (pre @ suffix) = CHR ''/'' # x @ suffix \<or> Clean (pre @ suffix) = x @ suffix"
    using ne unfolding Clean_def Let_def st x by auto
  then show ?thesis
    by (metis HasSuffix_iff append_Cons)
qed

lemma joinSlash_ends_with_last: "es \<noteq> [] \<Longrightarrow> \<exists>x. joinSlash es = x @ last es"
  by (induction es rule: joinSlash.induct) auto

lemma Join_keeps_suffix:
  assumes "CHR ''/'' \<notin> set suffix" and "3 \<le> length suffix" and "HasSuffix k suffix"
  shows "HasSuffix (Join [tmp, b, k]) suffix"
proof -
  from assms(3) obtain pre where k: "k = pre @ suffix"
    by (auto simp: HasSuffix_iff)
  have kne: "k \<noteq> []" using k assms(2) by auto
  let ?es = "dropWhile (\<lambda>e. e = []) [tmp, b, k]"
  have es: "?es \<noteq> []" "last ?es = k"
    using kne by auto
  obtain x where "joinSlash ?es = x @ k"
    using joinSlash_ends_with_last [OF es(1)] es(2) by auto
  then have "Join [tmp, b, k] = Clean ((x @ pre) @ suffix)"
    unfolding Join_def Let_def using es(1) by (simp only: if_False k append_assoc)
  then show ?thesis
    using Clean_keeps_suffix [OF assms(1,2), of "x @ pre"] by (simp only:)
qed

lemma LocalPath_gz:
  "HasSuffix (Key (raw object)) ''.gz'' \<Longrightarrow> HasSuffix (LocalPath object tmp) ''.gz''"
  unfolding LocalPath_def by (rule Join_keeps_suffix) simp_all

section \<open>Evaluation on the concrete inputs\<close>

lemma paths:
  "Join [''/t'', ''bk'', ''a''] = ''/t/bk/a''"
  "Join [''/t'', ''bk'', ''b''] = ''/t/bk/b''"
  "Join [''/t'', ''bk'', ''c''] = ''/t/bk/c''"
  "Join [''/t'', ''bk'', ''x.gz/''] = ''/t/bk/x.gz''"
  "Join [''/t'', ''bk'', ''01.log.gz''] = ''/t/bk/01.log.gz''"
  "Join [''/t'', ''bk'', ''big.log''] = ''/t/bk/big.log''"
  "Join [''/t'', ''bk'', ''d''] = ''/t/bk/d''"
  "Join [''/t'', ''bk'', ''d/x''] = ''/t/bk/d/x''"
  "Join [''/t'', ''bk'', ''y''] = ''/t/bk/y''"
  "Dir ''/t/bk/d/x'' = ''/t/bk/d''"
  "Dir ''/t/bk/y'' = ''/t/bk''"
  "Join [''/t'', ''bk'', ''x''] = ''/t/bk/x''"
  "Join [''/t'', ''bk'', ''x/''] = ''/t/bk/x''"
  "Dir ''/t/bk/x'' = ''/t/bk''"
  "Dir ''/t/bk/a'' = ''/t/bk''"
  "Dir ''/t/bk/b'' = ''/t/bk''"
  "Dir ''/t/bk/c'' = ''/t/bk''"
  "Dir ''/t/bk'' = ''/t''"
  "Dir ''/t'' = ''/''"
  "Dir ''/'' = ''/''"
  by (simp_all add: Join_def Dir_def Clean_def cleanStep_def)

lemma ancestors_t_bk: "ancestors ''/t/bk'' = [''/t'', ''/'']"
  by (simp add: paths)

declare ancestors.simps [simp del]

lemmas fs_defs =
  Stat_def missing_def isFile_def IsNotExist_def MkdirAll_def Create_def WriteAt_def
  content_def Open_def ReadFile_def

lemmas sched_defs =
  step_def admit_def prepare_def download_def record_result_def ensureDir_def initial_def
  LocalPath_def Let_def

declare scanLines.simps [simp del]

lemma scanLines_Nil: "scanLines ([], e) = ([], e)"
  by (subst scanLines.simps) (simp add: maxTokenSize_def)

lemma takeWhile_line:
  "CHR 0x0A \<notin> set l \<Longrightarrow> takeWhile (\<lambda>c. c \<noteq> CHR 0x0A) l = l"
  "CHR 0x0A \<notin> set l \<Longrightarrow> takeWhile (\<lambda>c. c \<noteq> CHR 0x0A) (l @ CHR 0x0A # rest) = l"
  "CHR 0x0A \<notin> set l \<Longrightarrow>
     takeWhile (\<lambda>c. c \<noteq> CHR 0x0A) (l @ rest) = l @ takeWhile (\<lambda>c. c \<noteq> CHR 0x0A) rest"
  by (auto simp: takeWhile_tail takeWhile_eq_all_conv intro!: takeWhile_append2)

lemma scanLines_line:
  "CHR 0x0A \<notin> set l \<Longrightarrow> length l < maxTokenSize \<Longrightarrow>
   scanLines (l @ CHR 0x0A # rest, e) =
     (dropCR l # fst (scanLines (rest, e)), snd (scanLines (rest, e)))"
  by (subst scanLines.simps) (simp add: takeWhile_line Let_def split: prod.splits)

lemma scanLines_last:
  "CHR 0x0A \<notin> set l \<Longrightarrow> length l < maxTokenSize \<Longrightarrow> l \<noteq> [] \<Longrightarrow>
   scanLines (l, e) = ([dropCR l], e)"
  by (subst scanLines.simps) (simp add: takeWhile_line Let_def)

lemma scanLines_too_long:
  "CHR 0x0A \<notin> set l \<Longrightarrow> maxTokenSize \<le> length l \<Longrightarrow>
   scanLines (l @ rest, e) = ([], Some ErrTooLong)"
  by (subst scanLines.simps) (simp add: takeWhile_line Let_def)

section \<open>Properties of the output phase\<close>

lemma emit_chunks:
  "emit inflate tmp fs objects = (chunks, r) \<Longrightarrow>
   length chunks \<le> length objects \<and>
   map (\<lambda>(object, ls). (object, Inr ls)) chunks =
     map (\<lambda>object. (object, emitObject inflate tmp fs object)) (take (length chunks) objects) \<and>
   (r = None \<longrightarrow> length chunks = length objects) \<and>
   (\<forall>err. r = Some err \<longrightarrow>
      length chunks < length objects \<and>
      emitObject inflate tmp fs (objects ! length chunks) = Inl err)"
proof (induction objects arbitrary: chunks r)
  case Nil
  then show ?case by simp
next
  case (Cons object objects)
  show ?case
  proof (cases "emitObject inflate tmp fs object")
    case (Inl err)
    with Cons.prems show ?thesis by auto
  next
    case (Inr ls)
    obtain chunks' r' where e: "emit inflate tmp fs objects = (chunks', r')"
      by (cases "emit inflate tmp fs objects")
    with Cons.prems Inr have c: "chunks = (object, ls) # chunks'" "r = r'"
      by auto
    from Cons.IH [OF e] show ?thesis
      unfolding c by (simp add: Inr)
  qed
qed


text \<open>
  For an object whose local file can be opened, the output loop applies gzip decompression
  exactly when the local path \<^verbatim>\<open>path.Join(tmp, bucket, key)\<close> ends in \<^verbatim>\<open>.gz\<close>: then
  a stream that \<^verbatim>\<open>gzip.NewReader\<close> rejects is fatal, and otherwise the lines scanned
  from the decompressed stream are printed; when the path does not end in \<^verbatim>\<open>.gz\<close>,
  the lines scanned from the raw content are printed. Every key that ends in \<^verbatim>\<open>.gz\<close>
  has a local path that ends in \<^verbatim>\<open>.gz\<close>.
\<close>

lemma gzip_applied_by_local_path:
  "nodes fs (Join [tmp, bucket object, Key (raw object)]) = Some f \<longrightarrow>
     emitObject inflate tmp fs object =
       (if HasSuffix (Join [tmp, bucket object, Key (raw object)]) ''.gz'' then
          (case gzipNewReader inflate (ReadFile f) of
             Inl err \<Rightarrow> Inl (GzipFailed err)
           | Inr reader \<Rightarrow> Inr (fst (scanLines reader)))
        else Inr (fst (scanLines (ReadFile f)))) \<and>
     (HasSuffix (Key (raw object)) ''.gz'' \<longrightarrow>
        HasSuffix (Join [tmp, bucket object, Key (raw object)]) ''.gz'')"
  using LocalPath_gz [of object tmp]
  by (simp add: emitObject_def Open_def LocalPath_def)

lemma gzip_rejects_plain_text:
  "emitObject (\<lambda>r. Inr r) ''/t'' logGzDisk logGz = Inl (GzipFailed ErrHeader)"
proof -
  have 1: "HasSuffix ''/t/bk/01.log.gz'' ''.gz''"
    by (simp add: HasSuffix_def)
  have 2: "gzipNewReader (\<lambda>r. Inr r) (''not a gzip file'', None) = Inl ErrHeader"
    by (simp add: gzipNewReader_def)
  show ?thesis
    using gzip_applied_by_local_path
      [of logGzDisk "''/t''" logGz "File ''not a gzip file''" "\<lambda>r. Inr r"] 1 2
    by (simp add: logGz_def logGzDisk_def paths ReadFile_def)
qed

text \<open>
  C3 (the code at a failing input). The converse fails, because \<^verbatim>\<open>path.Join\<close> cleans
  the path: the key \<^verbatim>\<open>x.gz/\<close> does not end in \<^verbatim>\<open>.gz\<close>, its local path does, and
  its empty local file is not printed as raw content, which would be no line at all, but
  ends the run with the error of the gzip reader.
\<close>

theorem gzip_applied_to_folder_key:
  "\<not> HasSuffix (Key (raw gzFolder)) ''.gz'' \<and>
   nodes gzFolderDisk (LocalPath gzFolder ''/t'') = Some (File []) \<and>
   emitObject (\<lambda>r. Inr r) ''/t'' gzFolderDisk gzFolder = Inl (GzipFailed EOF) \<and>
   emitObject (\<lambda>r. Inr r) ''/t'' gzFolderDisk gzFolder \<noteq> Inr (fst (scanLines ([], None)))"
proof -
  have 1: "HasSuffix ''/t/bk/x.gz'' ''.gz''" "\<not> HasSuffix ''x.gz/'' ''.gz''"
    by (simp_all add: HasSuffix_def)
  show ?thesis
    using 1
    by (simp add: gzFolder_def gzFolderDisk_def emitObject_def LocalPath_def paths fs_defs gzipNewReader_def)
qed

text \<open>
  C7. Whatever the disk holds after the download phase, the output loop takes the objects
  in the order of the list, in one pass. The objects it has printed are the first ones of
  the list, each once and in the order of the list, and what is printed for the object at
  a position is what the loop body prints for that object from its local file (for a
  regular file whose path does not end in \<^verbatim>\<open>.gz\<close>, the lines scanned from the content
  of the file; for one whose path does, the lines scanned from the stream the gzip reader
  gives for that content). Standard output is these lines, object after object in the
  order of the list. Without fatal error every object of the list has been printed; a
  fatal error is the error of the loop body on the first object that was not printed. The
  order in which downloads ended has no part in it.
\<close>

theorem emit_in_listing_order:
  "emit inflate tmp fs objects = (chunks, r) \<longrightarrow>
     length chunks \<le> length objects \<and>
     (\<forall>k < length chunks.
        fst (chunks ! k) = objects ! k \<and>
        emitObject inflate tmp fs (objects ! k) = Inr (snd (chunks ! k)) \<and>
        (\<forall>bs. nodes fs (LocalPath (objects ! k) tmp) = Some (File bs) \<and>
              \<not> HasSuffix (LocalPath (objects ! k) tmp) ''.gz'' \<longrightarrow>
              snd (chunks ! k) = fst (scanLines (bs, None))) \<and>
        (\<forall>bs reader. nodes fs (LocalPath (objects ! k) tmp) = Some (File bs) \<and>
              HasSuffix (LocalPath (objects ! k) tmp) ''.gz'' \<and>
              gzipNewReader inflate (bs, None) = Inr reader \<longrightarrow>
              snd (chunks ! k) = fst (scanLines reader))) \<and>
     stdout chunks =
       concat (map (\<lambda>object. case emitObject inflate tmp fs object of Inl err \<Rightarrow> [] | Inr ls \<Rightarrow> ls)
                   (take (length chunks) objects)) \<and>
     (r = None \<longrightarrow> length chunks = length objects) \<and>
     (\<forall>err. r = Some err \<longrightarrow>
        length chunks < length objects \<and>
        emitObject inflate tmp fs (objects ! length chunks) = Inl err)"
proof
  assume e: "emit inflate tmp fs objects = (chunks, r)"
  from emit_chunks [OF e]
  have len: "length chunks \<le> length objects"
    and m: "map (\<lambda>(object, ls). (object, Inr ls)) chunks =
      map (\<lambda>object. (object, emitObject inflate tmp fs object)) (take (length chunks) objects)"
    and ok: "r = None \<longrightarrow> length chunks = length objects"
    and bad: "\<forall>err. r = Some err \<longrightarrow>
      length chunks < length objects \<and>
      emitObject inflate tmp fs (objects ! length chunks) = Inl err"
    by blast+
  have nth: "fst (chunks ! k) = objects ! k \<and>
      emitObject inflate tmp fs (objects ! k) = Inr (snd (chunks ! k))"
    if k: "k < length chunks" for k
  proof -
    have "map (\<lambda>(object, ls). (object, Inr ls)) chunks ! k =
      map (\<lambda>object. (object, emitObject inflate tmp fs object)) (take (length chunks) objects) ! k"
      by (simp only: m)
    then show ?thesis using k len by (simp add: case_prod_beta)
  qed
  have raw: "snd (chunks ! k) = fst (scanLines (bs, None))"
    if k: "k < length chunks"
      and f: "nodes fs (LocalPath (objects ! k) tmp) = Some (File bs) \<and>
        \<not> HasSuffix (LocalPath (objects ! k) tmp) ''.gz''" for k bs
  proof -
    have "emitObject inflate tmp fs (objects ! k) = Inr (fst (scanLines (bs, None)))"
      using f by (simp add: emitObject_def Open_def ReadFile_def)
    then show ?thesis using nth [OF k] by simp
  qed
  have gz: "snd (chunks ! k) = fst (scanLines reader)"
    if k: "k < length chunks"
      and f: "nodes fs (LocalPath (objects ! k) tmp) = Some (File bs) \<and>
        HasSuffix (LocalPath (objects ! k) tmp) ''.gz'' \<and>
        gzipNewReader inflate (bs, None) = Inr reader" for k bs reader
  proof -
    have "emitObject inflate tmp fs (objects ! k) = Inr (fst (scanLines reader))"
      using f by (simp add: emitObject_def Open_def ReadFile_def)
    then show ?thesis using nth [OF k] by simp
  qed
  have "map snd chunks =
      map (\<lambda>object. case emitObject inflate tmp fs object of Inl err \<Rightarrow> [] | Inr ls \<Rightarrow> ls)
        (take (length chunks) objects)"
    using nth len by (intro nth_equalityI) simp_all
  then have out: "stdout chunks =
      concat (map (\<lambda>object. case emitObject inflate tmp fs object of Inl err \<Rightarrow> [] | Inr ls \<Rightarrow> ls)
                  (take (length chunks) objects))"
    by (simp add: stdout_def)
  show "length chunks \<le> length objects \<and>
     (\<forall>k < length chunks.
        fst (chunks ! k) = objects ! k \<and>
        emitObject inflate tmp fs (objects ! k) = Inr (snd (chunks ! k)) \<and>
        (\<forall>bs. nodes fs (LocalPath (objects ! k) tmp) = Some (File bs) \<and>
              \<not> HasSuffix (LocalPath (objects ! k) tmp) ''.gz'' \<longrightarrow>
              snd (chunks ! k) = fst (scanLines (bs, None))) \<and>
        (\<forall>bs reader. nodes fs (LocalPath (objects ! k) tmp) = Some (File bs) \<and>
              HasSuffix (LocalPath (objects ! k) tmp) ''.gz'' \<and>
              gzipNewReader inflate (bs, None) = Inr reader \<longrightarrow>
              snd (chunks ! k) = fst (scanLines reader))) \<and>
     stdout chunks =
       concat (map (\<lambda>object. case emitObject inflate tmp fs object of Inl err \<Rightarrow> [] | Inr ls \<Rightarrow> ls)
                   (take (length chunks) objects)) \<and>
     (r = None \<longrightarrow> length chunks = length objects) \<and>
     (\<forall>err. r = Some err \<longrightarrow>
        length chunks < length objects \<and>
        emitObject inflate tmp fs (objects ! length chunks) = Inl err)"
    using len nth raw gz out ok bad by blast
qed

lemma bFirst_run:
  "map_option (\<lambda>s. (phases s, Wait s)) (run 2 ''/t'' abcStore abc (take 6 bFirst) (initial emptyDisk abc))
     = Some ([Created, Done, Waiting], None)"
  "map_option (\<lambda>s. (phases s, Wait s)) (run 2 ''/t'' abcStore abc bFirst (initial emptyDisk abc))
     = Some ([Done, Done, Done], Some None)"
  by (simp_all add: bFirst_def abc_def abcStore_def emptyDisk_def sched_defs fs_defs paths
        ancestors_t_bk Wait_def)

lemma bFirst_emit:
  "emit (\<lambda>r. Inr r) ''/t'' (disk (the (run 2 ''/t'' abcStore abc bFirst (initial emptyDisk abc)))) abc =
     (zip abc [[''a''], [''b''], [''c'']], None)"
proof -
  have 1: "\<not> HasSuffix ''/t/bk/a'' ''.gz''" "\<not> HasSuffix ''/t/bk/b'' ''.gz''" "\<not> HasSuffix ''/t/bk/c'' ''.gz''"
    by (simp_all add: HasSuffix_def)
  have 2: "scanLines ([c, CHR 0x0A], None) = ([[c]], None)" if "c \<noteq> CHR 0x0A \<and> c \<noteq> CHR 0x0D" for c
    using scanLines_line [of "[c]" "[]" None] that
    by (auto simp: maxTokenSize_def scanLines_Nil dropCR_def)
  show ?thesis
    by (simp add: bFirst_def abc_def abcStore_def emptyDisk_def sched_defs fs_defs paths
        ancestors_t_bk emitObject_def 1 2)
qed

theorem emit_in_listing_order_witness:
  "map_option phases (run 2 ''/t'' abcStore abc (take 6 bFirst) (initial emptyDisk abc)) =
     Some [Created, Done, Waiting] \<and>
   map_option Wait (run 2 ''/t'' abcStore abc bFirst (initial emptyDisk abc)) = Some (Some None) \<and>
   (\<exists>chunks.
      emit (\<lambda>r. Inr r) ''/t'' (disk (the (run 2 ''/t'' abcStore abc bFirst (initial emptyDisk abc)))) abc =
        (chunks, None) \<and>
      map fst chunks = abc \<and> stdout chunks = [''a'', ''b'', ''c''] \<and>
      emitObject (\<lambda>r. Inr r) ''/t''
        (disk (the (run 2 ''/t'' abcStore abc bFirst (initial emptyDisk abc)))) (abc ! 1) = Inr [''b''])"
proof -
  let ?fs = "disk (the (run 2 ''/t'' abcStore abc bFirst (initial emptyDisk abc)))"
  let ?chunks = "zip abc [[''a''], [''b''], [''c'']]"
  have "\<forall>k < length ?chunks.
      fst (?chunks ! k) = abc ! k \<and>
      emitObject (\<lambda>r. Inr r) ''/t'' ?fs (abc ! k) = Inr (snd (?chunks ! k))"
    using emit_in_listing_order [of "\<lambda>r. Inr r" "''/t''" ?fs abc ?chunks None] bFirst_emit
    by blast
  then have "\<forall>k < length ?chunks.
      emitObject (\<lambda>r. Inr r) ''/t'' ?fs (abc ! k) = Inr (snd (?chunks ! k))"
    by blast
  moreover have "1 < length ?chunks"
    by (simp add: abc_def)
  ultimately have "emitObject (\<lambda>r. Inr r) ''/t'' ?fs (abc ! 1) = Inr (snd (?chunks ! 1))"
    by blast
  then have 1: "emitObject (\<lambda>r. Inr r) ''/t'' ?fs (abc ! 1) = Inr [''b'']"
    by (simp add: abc_def)
  have 2: "map fst ?chunks = abc" "stdout ?chunks = [''a'', ''b'', ''c'']"
    by (simp_all add: stdout_def abc_def)
  show ?thesis
    using bFirst_run bFirst_emit 1 2
    by (auto simp: option.map_comp comp_def map_option_case split: option.splits)
qed

text \<open>
  C2 (the code at a failing input). A local file whose first line is 70000 bytes long: the
  scanner stops with \<open>ErrTooLong\<close> before it returns a line, the output loop prints
  nothing for the object, not even the later line, goes on to the next object and ends
  without error. The same happens with the read error of a directory that stands at the
  local path of an object and passes the cache check by its size.
\<close>

theorem scanner_error_is_dropped:
  "scanLines (ReadFile (File (replicate 70000 (CHR ''a'') @ CHR 0x0A # ''tail'' @ [CHR 0x0A]))) =
     ([], Some ErrTooLong) \<and>
   emit (\<lambda>r. Inr r) ''/t'' longLineDisk [longLine, shortLine] =
     ([(longLine, []), (shortLine, [''ok''])], None) \<and>
   isLocal folderDisk ''/t'' folderObject \<and>
   scanLines (ReadFile Directory) = ([], Some EISDIR) \<and>
   emit (\<lambda>r. Inr r) ''/t'' folderDisk [folderObject, shortLine] =
     ([(folderObject, []), (shortLine, [''ok''])], None)"
proof -
  have 1: "\<not> HasSuffix ''/t/bk/big.log'' ''.gz''" "\<not> HasSuffix ''/t/bk/c'' ''.gz''"
    "\<not> HasSuffix ''/t/bk/d'' ''.gz''"
    by (simp_all add: HasSuffix_def)
  have 2: "scanLines (replicate 70000 (CHR ''a'') @ CHR 0x0A # ''tail'' @ [CHR 0x0A], None) =
      ([], Some ErrTooLong)"
    by (rule scanLines_too_long) (simp_all add: maxTokenSize_def)
  have 3: "scanLines (''ok'' @ [CHR 0x0A], None) = ([''ok''], None)"
    using scanLines_line [of "''ok''" "[]" None]
    by (simp add: maxTokenSize_def scanLines_Nil dropCR_def)
  have 4: "emitObject (\<lambda>r. Inr r) ''/t'' longLineDisk longLine = Inr []"
    using 1 2 by (simp add: emitObject_def longLine_def longLineDisk_def LocalPath_def paths fs_defs)
  have 5: "emitObject (\<lambda>r. Inr r) ''/t'' longLineDisk shortLine = Inr [''ok'']"
    using 1 3 by (simp add: emitObject_def shortLine_def longLineDisk_def LocalPath_def paths fs_defs)
  have 6: "isLocal folderDisk ''/t'' folderObject"
    by (simp add: isLocal_def folderObject_def folderDisk_def LocalPath_def paths fs_defs)
  have 7: "emitObject (\<lambda>r. Inr r) ''/t'' folderDisk folderObject = Inr []"
    using 1 by (simp add: emitObject_def folderObject_def folderDisk_def LocalPath_def paths fs_defs
        scanLines_Nil)
  have 8: "emitObject (\<lambda>r. Inr r) ''/t'' folderDisk shortLine = Inr [''ok'']"
    using 1 3 by (simp add: emitObject_def shortLine_def folderDisk_def LocalPath_def paths fs_defs)
  show ?thesis
    using 2 4 5 6 7 8 by (simp add: ReadFile_def scanLines_Nil)
qed

section \<open>Properties of the admission gate\<close>

lemma filter_update_count:
  "i < length xs \<Longrightarrow>
   length (filter P (xs[i := y])) + (if P (xs ! i) then 1 else 0) =
   length (filter P xs) + (if P y then 1 else 0)"
proof (induction xs arbitrary: i)
  case Nil
  then show ?case by simp
next
  case (Cons x xs)
  then show ?case by (cases i) auto
qed

lemma inflight_update:
  "i < length (phases s) \<Longrightarrow>
   inflight (s\<lparr>phases := (phases s)[i := ph]\<rparr>) + (if phases s ! i = Started \<or> phases s ! i = Created then 1 else 0) =
   inflight s + (if ph = Started \<or> ph = Created then 1 else 0)"
  unfolding inflight_def
  using filter_update_count [of i "phases s" "\<lambda>ph. ph = Started \<or> ph = Created" ph] by simp

lemma gate_inv_update:
  assumes inv: "gate_inv cap todo s" and i: "i < length todo"
    and old: "phases s ! i \<noteq> Waiting" and new: "ph \<noteq> Waiting"
    and s': "phases s' = (phases s)[i := ph]" "nxt s' = nxt s"
    and d: "dsem s' + (if phases s ! i = Started \<or> phases s ! i = Created then 1 else 0) =
            dsem s + (if ph = Started \<or> ph = Created then 1 else 0)"
    and le: "dsem s' \<le> dsem s"
  shows "gate_inv cap todo s'"
proof -
  have len: "length (phases s) = length todo" using inv by (simp add: gate_inv_def)
  have "inflight s' = inflight (s\<lparr>phases := (phases s)[i := ph]\<rparr>)"
    by (simp add: inflight_def s')
  then have "inflight s' + (if phases s ! i = Started \<or> phases s ! i = Created then 1 else 0) =
      inflight s + (if ph = Started \<or> ph = Created then 1 else 0)"
    using inflight_update [of i s ph] i len by simp
  then have "dsem s' = inflight s'"
    using d inv by (simp add: gate_inv_def split: if_splits)
  moreover have "\<forall>j < length todo. (j < nxt s') = (phases s' ! j \<noteq> Waiting)"
    using inv old new i by (auto simp: gate_inv_def s' nth_list_update)
  ultimately show ?thesis
    using inv le by (simp add: gate_inv_def s')
qed

lemma gate_inv_same:
  "gate_inv cap todo s \<Longrightarrow> phases s' = phases s \<Longrightarrow> nxt s' = nxt s \<Longrightarrow> dsem s' = dsem s \<Longrightarrow>
   gate_inv cap todo s'"
  by (simp add: gate_inv_def inflight_def)

lemma gate_inv_admit:
  assumes inv: "gate_inv cap todo s" and n: "nxt s < length todo" and c: "dsem s < cap"
  shows "gate_inv cap todo (admit s)"
proof -
  have len: "length (phases s) = length todo" using inv by (simp add: gate_inv_def)
  have w: "phases s ! nxt s = Waiting" using inv n by (auto simp: gate_inv_def)
  have "inflight (admit s) = inflight (s\<lparr>phases := (phases s)[nxt s := Started]\<rparr>)"
    by (simp add: inflight_def admit_def)
  then have "inflight (admit s) = Suc (inflight s)"
    using inflight_update [of "nxt s" s Started] n len w by simp
  moreover have "\<forall>j < length todo. (j < nxt (admit s)) = (phases (admit s) ! j \<noteq> Waiting)"
    using inv n by (auto simp: gate_inv_def admit_def nth_list_update less_Suc_eq)
  ultimately show ?thesis
    using inv n c by (simp add: gate_inv_def admit_def)
qed

lemma prepare_effect:
  "(phases (prepare tmp object i s) = phases s \<and> dsem (prepare tmp object i s) = dsem s \<and>
      exited (prepare tmp object i s) \<noteq> None) \<or>
   (\<exists>err. phases (prepare tmp object i s) = (phases s)[i := Returned (Some err)] \<and>
      dsem (prepare tmp object i s) = dsem s - 1) \<or>
   (phases (prepare tmp object i s) = (phases s)[i := Created] \<and>
      dsem (prepare tmp object i s) = dsem s)"
  by (auto simp: prepare_def Let_def split: sum.splits)

lemma prepare_nxt [simp]: "nxt (prepare tmp object i s) = nxt s"
  by (simp add: prepare_def Let_def split: sum.splits)

lemma download_effect:
  "(phases (download tmp remote object i out cl s) = phases s \<and>
      dsem (download tmp remote object i out cl s) = dsem s) \<or>
   (\<exists>r. phases (download tmp remote object i out cl s) = (phases s)[i := Returned r] \<and>
      dsem (download tmp remote object i out cl s) = dsem s - 1)"
  by (auto simp: download_def Let_def split: option.splits outcome.splits prod.splits)

lemma download_nxt [simp]: "nxt (download tmp remote object i out cl s) = nxt s"
  by (simp add: download_def Let_def split: option.splits outcome.splits prod.splits)

lemma gate_inv_pos:
  "gate_inv cap todo s \<Longrightarrow> i < length todo \<Longrightarrow> phases s ! i = Started \<or> phases s ! i = Created \<Longrightarrow>
   0 < dsem s"
proof -
  assume inv: "gate_inv cap todo s" and i: "i < length todo"
    and a: "phases s ! i = Started \<or> phases s ! i = Created"
  have "phases s ! i \<in> set (filter (\<lambda>ph. ph = Started \<or> ph = Created) (phases s))"
    using inv i a by (auto simp: gate_inv_def)
  then have "0 < inflight s"
    unfolding inflight_def by (metis length_pos_if_in_set)
  then show ?thesis using inv by (simp add: gate_inv_def)
qed

lemma gate_inv_step:
  assumes inv: "gate_inv cap todo s" and st: "step cap tmp remote todo ev s = Some s'"
  shows "gate_inv cap todo s'"
proof (cases ev)
  case Admit
  with st inv show ?thesis
    by (auto simp: step_def gate_inv_admit split: if_splits)
next
  case (Prepare i)
  with st have i: "i < length todo" and ph: "phases s ! i = Started"
    and s': "s' = prepare tmp (todo ! i) i s"
    by (auto simp: step_def split: if_splits)
  have pos: "0 < dsem s" using gate_inv_pos [OF inv i] ph by simp
  from prepare_effect [of tmp "todo ! i" i s] show ?thesis
  proof (elim disjE exE conjE)
    assume "phases (prepare tmp (todo ! i) i s) = phases s" "dsem (prepare tmp (todo ! i) i s) = dsem s"
    then show ?thesis using inv s' by (auto intro: gate_inv_same)
  next
    fix err
    assume "phases (prepare tmp (todo ! i) i s) = (phases s)[i := Returned (Some err)]"
      "dsem (prepare tmp (todo ! i) i s) = dsem s - 1"
    then show ?thesis
      using pos ph unfolding s'
      by (intro gate_inv_update [OF inv i, of "Returned (Some err)"]) auto
  next
    assume "phases (prepare tmp (todo ! i) i s) = (phases s)[i := Created]"
      "dsem (prepare tmp (todo ! i) i s) = dsem s"
    then show ?thesis
      using pos ph unfolding s'
      by (intro gate_inv_update [OF inv i, of Created]) auto
  qed
next
  case (Download i out cl)
  with st have i: "i < length todo" and ph: "phases s ! i = Created"
    and s': "s' = download tmp remote (todo ! i) i out cl s"
    by (auto simp: step_def split: if_splits)
  have pos: "0 < dsem s" using gate_inv_pos [OF inv i] ph by simp
  from download_effect [of tmp remote "todo ! i" i out cl s] show ?thesis
  proof (elim disjE exE conjE)
    assume "phases (download tmp remote (todo ! i) i out cl s) = phases s"
      "dsem (download tmp remote (todo ! i) i out cl s) = dsem s"
    then show ?thesis using inv s' by (auto intro: gate_inv_same)
  next
    fix r
    assume "phases (download tmp remote (todo ! i) i out cl s) = (phases s)[i := Returned r]"
      "dsem (download tmp remote (todo ! i) i out cl s) = dsem s - 1"
    then show ?thesis
      using pos ph unfolding s'
      by (intro gate_inv_update [OF inv i, of "Returned r"]) auto
  qed
next
  case (Record i)
  with st obtain r where i: "i < length todo" and ph: "phases s ! i = Returned r"
    and s': "s' = record_result i r s"
    by (auto simp: step_def split: if_splits phase.splits)
  show ?thesis
    unfolding s' using ph
    by (intro gate_inv_update [OF inv i, of Done]) (auto simp: record_result_def)
qed

lemma gate_inv_run:
  "gate_inv cap todo s \<Longrightarrow> run cap tmp remote todo evs s = Some s' \<Longrightarrow> gate_inv cap todo s'"
proof (induction evs arbitrary: s)
  case Nil
  then show ?case by simp
next
  case (Cons ev evs)
  then show ?case
    by (auto split: option.splits dest: gate_inv_step)
qed

lemma gate_inv_initial: "gate_inv cap todo (initial fs todo)"
  by (simp add: gate_inv_def initial_def inflight_def)

lemma step_capacity_0:
  "todo \<noteq> [] \<Longrightarrow> step 0 tmp remote todo ev (initial fs todo) = None"
  by (cases ev) (auto simp: step_def initial_def)

lemma run_capacity_0:
  "todo \<noteq> [] \<Longrightarrow> run 0 tmp remote todo evs (initial fs todo) = Some s \<Longrightarrow>
   evs = [] \<and> s = initial fs todo"
  by (cases evs) (auto simp: step_capacity_0)

lemma Wait_initial: "todo \<noteq> [] \<Longrightarrow> Wait (initial fs todo) = None"
  by (cases todo) (auto simp: Wait_def initial_def)



section \<open>Properties of a failing task\<close>

lemma groupErr_step:
  "step cap tmp remote todo ev s = Some s' \<Longrightarrow> groupErr s = Some e \<Longrightarrow> groupErr s' = Some e"
  by (cases ev)
     (auto simp: step_def admit_def prepare_def download_def record_result_def Let_def
           split: if_splits sum.splits option.splits phase.splits prod.splits outcome.splits)

lemma groupErr_run:
  "run cap tmp remote todo evs s = Some s' \<Longrightarrow> groupErr s = Some e \<Longrightarrow> groupErr s' = Some e"
proof (induction evs arbitrary: s)
  case Nil
  then show ?case by simp
next
  case (Cons ev evs)
  then show ?case
    by (auto split: option.splits dest: groupErr_step)
qed

lemma Create_node:
  "Create fs p = Inr fs' \<Longrightarrow> nodes fs' = (nodes fs)(p \<mapsto> File []) \<and> dirSize fs' = dirSize fs"
  by (auto simp: Create_def split: option.splits node.splits sum.splits if_splits)

lemma prepare_groupErr:
  "prepare tmp object i (s\<lparr>groupErr := g\<rparr>) = (prepare tmp object i s)\<lparr>groupErr := g\<rparr>"
  by (simp add: prepare_def Let_def split: sum.splits)


lemma run_append:
  "run cap tmp remote todo (xs @ ys) s =
     (case run cap tmp remote todo xs s of
        None \<Rightarrow> None
      | Some s' \<Rightarrow> run cap tmp remote todo ys s')"
  by (induction xs arbitrary: s) (auto split: option.splits)

lemma aFails_run:
  "map_option (\<lambda>s. (groupErr s, phases s, dsem s, nodes (disk s) ''/t/bk/b''))
     (run 1 ''/t'' abcStore ab (take 4 aFails) (initial staleDisk ab)) =
   Some (Some (DownloadFailed ''/t/bk/a'' (Remote ''500'')), [Done, Waiting], 0, Some (File ''o''))"
  "map_option (\<lambda>s. (groupErr s, phases s, dsem s, nodes (disk s) ''/t/bk/b''))
     (run 1 ''/t'' abcStore ab (take 6 aFails) (initial staleDisk ab)) =
   Some (Some (DownloadFailed ''/t/bk/a'' (Remote ''500'')), [Done, Created], 1, Some (File []))"
  "map_option (\<lambda>s. (Wait s, phases s, nodes (disk s) ''/t/bk/b''))
     (run 1 ''/t'' abcStore ab aFails (initial staleDisk ab)) =
   Some (Some (Some (DownloadFailed ''/t/bk/a'' (Remote ''500''))), [Done, Done], Some (File []))"
  by (simp_all add: aFails_def ab_def abcStore_def staleDisk_def sched_defs fs_defs paths Wait_def)

lemma aFails_cancelled:
  "map_option (\<lambda>s. (groupErr s, phases s, exited s, nodes (disk s) ''/t/bk'', nodes (disk s) ''/t/bk/b''))
     (run 1 ''/t'' abcStore ab (take 5 aFails) (initial staleDisk ab)) =
   Some (Some (DownloadFailed ''/t/bk/a'' (Remote ''500'')), [Done, Started], None,
         Some Directory, Some (File ''o''))"
  by (simp add: aFails_def ab_def abcStore_def staleDisk_def sched_defs fs_defs paths Wait_def)



section \<open>Properties of the directory check\<close>

text \<open>
  The directory check of a task whose parent path exists and is not a directory: the task
  calls \<^verbatim>\<open>logFatal\<close>, and the process ends at once. Nothing else changes: the task
  does not return, so the group gets no error and cancels nothing, the slot is not released,
  no further step of any task happens, and \<^verbatim>\<open>deg.Wait\<close> does not return.
\<close>

lemma directory_check_exits:
  "exited s = None \<and> i < length todo \<and> phases s ! i = Started \<and>
   Stat (disk s) (Dir (LocalPath (todo ! i) tmp)) = Inr fi \<and> \<not> fi_IsDir fi \<longrightarrow>
     step cap tmp remote todo (Prepare i) s =
       Some (s\<lparr>exited := Some (NotADirectory (Dir (LocalPath (todo ! i) tmp)))\<rparr>) \<and>
     step cap tmp remote todo ev
       (s\<lparr>exited := Some (NotADirectory (Dir (LocalPath (todo ! i) tmp)))\<rparr>) = None \<and>
     Wait (s\<lparr>exited := Some (NotADirectory (Dir (LocalPath (todo ! i) tmp)))\<rparr>) = None"
  by (simp add: step_def prepare_def ensureDir_def Wait_def Let_def)

lemma dirClash_run:
  "map_option (\<lambda>s. (exited s, groupErr s, phases s, dsem s))
     (run 2 ''/t'' abcStore dirClash [Admit, Admit] (initial dirClashDisk dirClash)) =
   Some (None, None, [Started, Started], 2)"
  "map_option (\<lambda>s. (exited s, groupErr s, phases s, dsem s, Wait s))
     (run 2 ''/t'' abcStore dirClash [Admit, Admit, Prepare 0] (initial dirClashDisk dirClash)) =
   Some (Some (NotADirectory ''/t/bk/d''), None, [Started, Started], 2, None)"
  "run 2 ''/t'' abcStore dirClash [Admit, Admit, Prepare 0, Record 0] (initial dirClashDisk dirClash) = None"
  "run 2 ''/t'' abcStore dirClash [Admit, Admit, Prepare 0, Prepare 1] (initial dirClashDisk dirClash) = None"
  by (simp_all add: dirClash_def abcStore_def dirClashDisk_def sched_defs fs_defs paths Wait_def)

text \<open>
  C8 (the code at a failing input). On a disk where \<^verbatim>\<open>d\<close> is a regular file, with
  two slots and the objects \<^verbatim>\<open>d/x\<close> and \<^verbatim>\<open>y\<close>: after the directory check of the
  first task the process has ended with the directory error, the first task is still in the
  phase in which it started and holds its slot, the group holds no error, the second task
  is in flight and not cancelled, \<^verbatim>\<open>deg.Wait\<close> has not returned, and the group can take
  no result from the first task. The failures of \<^verbatim>\<open>os.Create\<close> and of the download in
  the same function are returned to the group instead.
\<close>

theorem directory_error_exits_inside_task:
  "map_option (\<lambda>s. (exited s, groupErr s, phases s, dsem s, Wait s))
     (run 2 ''/t'' abcStore dirClash [Admit, Admit, Prepare 0] (initial dirClashDisk dirClash)) =
     Some (Some (NotADirectory ''/t/bk/d''), None, [Started, Started], 2, None) \<and>
   run 2 ''/t'' abcStore dirClash [Admit, Admit, Prepare 0, Record 0] (initial dirClashDisk dirClash) = None"
  using dirClash_run(2,3) by simp

section \<open>Properties of the downloaded files\<close>

lemma MkdirAll_keeps:
  "MkdirAll fs d = Inr fs' \<Longrightarrow>
   dirSize fs' = dirSize fs \<and> (\<forall>q n. nodes fs q = Some n \<longrightarrow> nodes fs' q = Some n)"
  by (auto simp: MkdirAll_def Let_def split: if_splits)

lemma ensureDir_keeps:
  "ensureDir fs d = Inr fs' \<Longrightarrow>
   dirSize fs' = dirSize fs \<and> (\<forall>q n. nodes fs q = Some n \<longrightarrow> nodes fs' q = Some n)"
  by (auto simp: ensureDir_def split: sum.splits if_splits dest: MkdirAll_keeps)

lemma failed_step:
  assumes inv: "gate_inv cap todo s" and st: "step cap tmp remote todo ev s = Some s'"
    and f: "failed s"
  shows "failed s'"
proof -
  have len: "length (phases s) = length todo" using inv by (simp add: gate_inv_def)
  have ex: "exited s = None" using st by (auto simp: step_def split: if_splits)
  from f ex consider (g) "groupErr s \<noteq> None"
    | (r) k err where "k < length (phases s)" "phases s ! k = Returned (Some err)"
    by (auto simp: failed_def)
  then show ?thesis
  proof cases
    case g
    then show ?thesis using groupErr_step [OF st] by (auto simp: failed_def)
  next
    case r
    have len': "length (phases s') = length (phases s)"
      using gate_inv_step [OF inv st] len by (simp add: gate_inv_def)
    show ?thesis
    proof (cases "phases s' ! k = Returned (Some err)")
      case True
      then show ?thesis using r len' by (auto simp: failed_def)
    next
      case False
      have w: "nxt s < length todo \<Longrightarrow> phases s ! nxt s = Waiting"
        using inv by (auto simp: gate_inv_def)
      have "groupErr s' \<noteq> None"
        using st False r w len
        by (cases ev)
           (auto simp: step_def admit_def prepare_def download_def record_result_def Let_def
              nth_list_update
              split: if_splits sum.splits option.splits phase.splits prod.splits outcome.splits)
      then show ?thesis by (simp add: failed_def)
    qed
  qed
qed

lemma admit_ok:
  assumes "step cap tmp remote todo Admit s = Some s'"
  shows "nxt s < length todo \<and> phases s' = (phases s)[nxt s := Started] \<and> disk s' = disk s"
  using assms by (auto simp: step_def admit_def split: if_splits)

lemma prepare_ok:
  assumes st: "step cap tmp remote todo (Prepare i) s = Some s'" and nf: "\<not> failed s'"
    and len: "length (phases s) = length todo"
  shows "i < length todo \<and> phases s ! i = Started \<and> phases s' = (phases s)[i := Created] \<and>
     nodes (disk s') (LocalPath (todo ! i) tmp) = Some (File []) \<and>
     dirSize (disk s') = dirSize (disk s) \<and>
     (\<forall>q n. q \<noteq> LocalPath (todo ! i) tmp \<longrightarrow> nodes (disk s) q = Some n \<longrightarrow>
            nodes (disk s') q = Some n)"
proof -
  from st have i: "i < length todo" and ph: "phases s ! i = Started"
    and s': "s' = prepare tmp (todo ! i) i s"
    by (auto simp: step_def split: if_splits)
  let ?fp = "LocalPath (todo ! i) tmp"
  obtain fs where e: "ensureDir (disk s) (Dir ?fp) = Inr fs"
    using nf unfolding s' by (cases "ensureDir (disk s) (Dir ?fp)") (auto simp: prepare_def failed_def)
  obtain fs' where c: "Create fs ?fp = Inr fs'"
    using nf i len unfolding s'
    by (cases "Create fs ?fp") (auto simp: prepare_def failed_def e)
  have s'': "phases s' = (phases s)[i := Created]" "disk s' = fs'"
    unfolding s' by (simp_all add: prepare_def e c)
  show ?thesis
    using i ph s'' Create_node [OF c] ensureDir_keeps [OF e] by auto
qed

lemma download_ok:
  assumes st: "step cap tmp remote todo (Download i out cl) s = Some s'" and nf: "\<not> failed s'"
    and len: "length (phases s) = length todo"
  shows "i < length todo \<and> phases s ! i = Created \<and> phases s' = (phases s)[i := Returned None] \<and>
     disk s' = WriteAt (disk s) (LocalPath (todo ! i) tmp) (body remote (todo ! i))"
proof -
  from st have i: "i < length todo" and ph: "phases s ! i = Created"
    and s': "s' = download tmp remote (todo ! i) i out cl s"
    by (auto simp: step_def split: if_splits)
  have cl: "cl = None"
    using nf unfolding s' by (cases cl) (auto simp: download_def failed_def Let_def split: prod.splits)
  have g: "groupErr s = None"
    using nf unfolding s' cl by (auto simp: download_def failed_def Let_def split: prod.splits if_splits)
  have out: "out = DlOk"
    using nf i len unfolding s' cl
    by (cases out) (auto simp: download_def failed_def Let_def g)
  show ?thesis
    using i ph unfolding s' cl out by (simp add: download_def g body_def)
qed

lemma record_ok:
  assumes st: "step cap tmp remote todo (Record i) s = Some s'" and nf: "\<not> failed s'"
  shows "i < length todo \<and> phases s ! i = Returned None \<and> phases s' = (phases s)[i := Done] \<and>
     disk s' = disk s"
  using assms
  by (auto simp: step_def record_result_def failed_def split: if_splits phase.splits option.splits)

lemma WriteAt_fresh:
  "nodes fs p = Some (File []) \<or> nodes fs p = Some (File b) \<Longrightarrow>
   nodes (WriteAt fs p b) = (nodes fs)(p \<mapsto> File b) \<and> dirSize (WriteAt fs p b) = dirSize fs"
  by (auto simp: WriteAt_def content_def)

lemma files_inv_step:
  assumes inv: "gate_inv cap todo s" and sb: "same_body tmp remote todo"
    and fi: "files_inv tmp remote todo s"
    and st: "step cap tmp remote todo ev s = Some s'" and nf: "\<not> failed s'"
  shows "files_inv tmp remote todo s'"
proof -
  have len: "length (phases s) = length todo" using inv by (simp add: gate_inv_def)
  let ?P = "\<lambda>i. LocalPath (todo ! i) tmp"
  let ?B = "\<lambda>i. body remote (todo ! i)"
  have cr: "nodes (disk s) (?P i) = Some (File []) \<or> nodes (disk s) (?P i) = Some (File (?B i))"
    if "i < length todo" "phases s ! i = Created" for i
    using fi that unfolding files_inv_def by blast
  have dn: "nodes (disk s) (?P i) = Some (File (?B i)) \<or>
      (\<exists>j < length todo. ?P j = ?P i \<and> phases s ! j = Created)"
    if "i < length todo" "phases s ! i = Returned None \<or> phases s ! i = Done" for i
    using fi that unfolding files_inv_def by blast
  have eq: "?B i = ?B j" if "i < length todo" "j < length todo" "?P i = ?P j" for i j
    using sb that unfolding same_body_def by blast
  show ?thesis
  proof (cases ev)
    case Admit
    from admit_ok [OF st [unfolded Admit]]
    have n: "nxt s < length todo" and ph: "phases s' = (phases s)[nxt s := Started]"
      and d: "disk s' = disk s" by auto
    have w: "phases s ! nxt s = Waiting" using inv n by (auto simp: gate_inv_def)
    show ?thesis
      unfolding files_inv_def
    proof (intro allI impI conjI)
      fix i assume i: "i < length todo" and c: "phases s' ! i = Created"
      then have "i \<noteq> nxt s" "phases s ! i = Created"
        using ph len n by (auto simp: nth_list_update split: if_splits)
      then show "nodes (disk s') (?P i) = Some (File []) \<or> nodes (disk s') (?P i) = Some (File (?B i))"
        using cr [OF i] d by simp
    next
      fix i assume i: "i < length todo"
        and c: "phases s' ! i = Returned None \<or> phases s' ! i = Done"
      then have "phases s ! i = Returned None \<or> phases s ! i = Done"
        using ph len n by (auto simp: nth_list_update split: if_splits)
      from dn [OF i this]
      show "nodes (disk s') (?P i) = Some (File (?B i)) \<or>
        (\<exists>j < length todo. ?P j = ?P i \<and> phases s' ! j = Created)"
      proof
        assume "nodes (disk s) (?P i) = Some (File (?B i))"
        then show ?thesis using d by simp
      next
        assume "\<exists>j < length todo. ?P j = ?P i \<and> phases s ! j = Created"
        then obtain j where j: "j < length todo" "?P j = ?P i" "phases s ! j = Created" by blast
        then have "j \<noteq> nxt s" using w by auto
        then have "phases s' ! j = Created" using j ph len by (simp add: nth_list_update)
        then show ?thesis using j by blast
      qed
    qed
  next
    case (Prepare k)
    from prepare_ok [OF st [unfolded Prepare] nf len]
    have k: "k < length todo" and pk: "phases s ! k = Started"
      and ph: "phases s' = (phases s)[k := Created]"
      and nk: "nodes (disk s') (?P k) = Some (File [])"
      and keep: "\<And>q n. q \<noteq> ?P k \<Longrightarrow> nodes (disk s) q = Some n \<Longrightarrow> nodes (disk s') q = Some n"
      by auto
    show ?thesis
      unfolding files_inv_def
    proof (intro allI impI conjI)
      fix i assume i: "i < length todo" and c: "phases s' ! i = Created"
      show "nodes (disk s') (?P i) = Some (File []) \<or> nodes (disk s') (?P i) = Some (File (?B i))"
      proof (cases "?P i = ?P k")
        case True
        then show ?thesis using nk by simp
      next
        case False
        then have "i \<noteq> k" by auto
        then have "phases s ! i = Created" using c ph len k by (simp add: nth_list_update)
        from cr [OF i this] show ?thesis using keep [OF False] by auto
      qed
    next
      fix i assume i: "i < length todo"
        and c: "phases s' ! i = Returned None \<or> phases s' ! i = Done"
      have ck: "phases s' ! k = Created" using ph len k by simp
      show "nodes (disk s') (?P i) = Some (File (?B i)) \<or>
        (\<exists>j < length todo. ?P j = ?P i \<and> phases s' ! j = Created)"
      proof (cases "?P i = ?P k")
        case True
        then show ?thesis using ck k by auto
      next
        case False
        then have "i \<noteq> k" by auto
        then have "phases s ! i = Returned None \<or> phases s ! i = Done"
          using c ph len k by (simp add: nth_list_update)
        from dn [OF i this] show ?thesis
        proof
          assume "nodes (disk s) (?P i) = Some (File (?B i))"
          then show ?thesis using keep [OF False] by simp
        next
          assume "\<exists>j < length todo. ?P j = ?P i \<and> phases s ! j = Created"
          then obtain j where j: "j < length todo" "?P j = ?P i" "phases s ! j = Created" by blast
          then have "j \<noteq> k" using pk by auto
          then have "phases s' ! j = Created" using j ph len by (simp add: nth_list_update)
          then show ?thesis using j by blast
        qed
      qed
    qed
  next
    case (Download k out cl)
    from download_ok [OF st [unfolded Download] nf len]
    have k: "k < length todo" and pk: "phases s ! k = Created"
      and ph: "phases s' = (phases s)[k := Returned None]"
      and d: "disk s' = WriteAt (disk s) (?P k) (?B k)"
      by auto
    have nd: "nodes (disk s') = (nodes (disk s))(?P k \<mapsto> File (?B k))"
      using WriteAt_fresh [OF cr [OF k pk]] d by simp
    show ?thesis
      unfolding files_inv_def
    proof (intro allI impI conjI)
      fix i assume i: "i < length todo" and c: "phases s' ! i = Created"
      then have ik: "i \<noteq> k" and pi: "phases s ! i = Created"
        using ph len k by (auto simp: nth_list_update split: if_splits)
      show "nodes (disk s') (?P i) = Some (File []) \<or> nodes (disk s') (?P i) = Some (File (?B i))"
      proof (cases "?P i = ?P k")
        case True
        then show ?thesis using nd eq [OF i k True] by simp
      next
        case False
        then show ?thesis using cr [OF i pi] nd by simp
      qed
    next
      fix i assume i: "i < length todo"
        and c: "phases s' ! i = Returned None \<or> phases s' ! i = Done"
      show "nodes (disk s') (?P i) = Some (File (?B i)) \<or>
        (\<exists>j < length todo. ?P j = ?P i \<and> phases s' ! j = Created)"
      proof (cases "?P i = ?P k")
        case True
        then show ?thesis using nd eq [OF i k True] by simp
      next
        case False
        then have "i \<noteq> k" by auto
        then have "phases s ! i = Returned None \<or> phases s ! i = Done"
          using c ph len k by (simp add: nth_list_update)
        from dn [OF i this] show ?thesis
        proof
          assume "nodes (disk s) (?P i) = Some (File (?B i))"
          then show ?thesis using nd False by simp
        next
          assume "\<exists>j < length todo. ?P j = ?P i \<and> phases s ! j = Created"
          then obtain j where j: "j < length todo" "?P j = ?P i" "phases s ! j = Created" by blast
          then have "j \<noteq> k" using False by auto
          then have "phases s' ! j = Created" using j ph len by (simp add: nth_list_update)
          then show ?thesis using j by blast
        qed
      qed
    qed
  next
    case (Record k)
    from record_ok [OF st [unfolded Record] nf]
    have k: "k < length todo" and pk: "phases s ! k = Returned None"
      and ph: "phases s' = (phases s)[k := Done]" and d: "disk s' = disk s"
      by auto
    show ?thesis
      unfolding files_inv_def
    proof (intro allI impI conjI)
      fix i assume i: "i < length todo" and c: "phases s' ! i = Created"
      then have "phases s ! i = Created"
        using ph len k by (auto simp: nth_list_update split: if_splits)
      then show "nodes (disk s') (?P i) = Some (File []) \<or> nodes (disk s') (?P i) = Some (File (?B i))"
        using cr [OF i] d by simp
    next
      fix i assume i: "i < length todo"
        and c: "phases s' ! i = Returned None \<or> phases s' ! i = Done"
      then have "phases s ! i = Returned None \<or> phases s ! i = Done"
        using ph len k pk by (auto simp: nth_list_update split: if_splits)
      from dn [OF i this]
      show "nodes (disk s') (?P i) = Some (File (?B i)) \<or>
        (\<exists>j < length todo. ?P j = ?P i \<and> phases s' ! j = Created)"
      proof
        assume "nodes (disk s) (?P i) = Some (File (?B i))"
        then show ?thesis using d by simp
      next
        assume "\<exists>j < length todo. ?P j = ?P i \<and> phases s ! j = Created"
        then obtain j where j: "j < length todo" "?P j = ?P i" "phases s ! j = Created" by blast
        then have "j \<noteq> k" using pk by auto
        then have "phases s' ! j = Created" using j ph len by (simp add: nth_list_update)
        then show ?thesis using j by blast
      qed
    qed
  qed
qed

lemma files_inv_run:
  "gate_inv cap todo s \<Longrightarrow> same_body tmp remote todo \<Longrightarrow> files_inv tmp remote todo s \<Longrightarrow>
   run cap tmp remote todo evs s = Some s' \<Longrightarrow> \<not> failed s' \<Longrightarrow> files_inv tmp remote todo s'"
proof (induction evs arbitrary: s)
  case Nil
  then show ?case by simp
next
  case (Cons ev evs)
  from Cons.prems(4) obtain s1 where s1: "step cap tmp remote todo ev s = Some s1"
    and r: "run cap tmp remote todo evs s1 = Some s'"
    by (auto split: option.splits)
  have g1: "gate_inv cap todo s1" using gate_inv_step [OF Cons.prems(1) s1] .
  have "\<not> failed s1"
  proof
    assume "failed s1"
    then have "failed s'" using g1 r
    proof (induction evs arbitrary: s1)
      case Nil
      then show ?case by simp
    next
      case (Cons e es)
      then show ?case
        by (auto split: option.splits dest: failed_step gate_inv_step)
    qed
    then show False using Cons.prems(5) by simp
  qed
  from files_inv_step [OF Cons.prems(1,2,3) s1 this]
  show ?case using Cons.IH [OF g1 Cons.prems(2) _ r Cons.prems(5)] by simp
qed

lemma files_inv_initial: "files_inv tmp remote todo (initial fs todo)"
  by (simp add: files_inv_def initial_def)

lemma Wait_success:
  "Wait s = Some None \<Longrightarrow> \<not> failed s \<and> (\<forall>i < length (phases s). phases s ! i = Done)"
  by (auto simp: Wait_def failed_def list_all_length split: if_splits)

lemma downloaded_files:
  assumes sb: "same_body tmp remote todo"
    and r: "run cap tmp remote todo evs (initial fs todo) = Some s" and w: "Wait s = Some None"
    and i: "i < length todo"
  shows "nodes (disk s) (LocalPath (todo ! i) tmp) = Some (File (body remote (todo ! i)))"
proof -
  have g: "gate_inv cap todo s" using gate_inv_run [OF gate_inv_initial r] .
  then have len: "length (phases s) = length todo" by (simp add: gate_inv_def)
  from Wait_success [OF w] have nf: "\<not> failed s" and dn: "\<And>j. j < length todo \<Longrightarrow> phases s ! j = Done"
    using len by auto
  have "files_inv tmp remote todo s"
    using files_inv_run [OF gate_inv_initial sb files_inv_initial r nf] .
  then show ?thesis
    using i dn [OF i] dn unfolding files_inv_def by force
qed


lemma step_frame:
  assumes st: "step cap tmp remote todo ev s = Some s'"
    and p: "\<forall>i < length todo. LocalPath (todo ! i) tmp \<noteq> p" and n: "nodes (disk s) p = Some n"
  shows "nodes (disk s') p = Some n"
  using assms
  by (cases ev)
     (auto simp: step_def admit_def prepare_def download_def record_result_def Let_def WriteAt_def
        split: if_splits sum.splits option.splits phase.splits prod.splits outcome.splits
        dest!: ensureDir_keeps Create_node)

lemma step_dirSize:
  "step cap tmp remote todo ev s = Some s' \<Longrightarrow> dirSize (disk s') = dirSize (disk s)"
  by (cases ev)
     (auto simp: step_def admit_def prepare_def download_def record_result_def Let_def WriteAt_def
        split: if_splits sum.splits option.splits phase.splits prod.splits outcome.splits
        dest!: ensureDir_keeps Create_node)

lemma run_frame:
  "run cap tmp remote todo evs s = Some s' \<Longrightarrow>
   \<forall>i < length todo. LocalPath (todo ! i) tmp \<noteq> p \<Longrightarrow> nodes (disk s) p = Some n \<Longrightarrow>
   nodes (disk s') p = Some n"
proof (induction evs arbitrary: s)
  case Nil
  then show ?case by simp
next
  case (Cons ev evs)
  then show ?case
    by (auto split: option.splits dest: step_frame)
qed

lemma run_dirSize:
  "run cap tmp remote todo evs s = Some s' \<Longrightarrow> dirSize (disk s') = dirSize (disk s)"
proof (induction evs arbitrary: s)
  case Nil
  then show ?case by simp
next
  case (Cons ev evs)
  then show ?case
    by (auto split: option.splits dest: step_dirSize)
qed

section \<open>Properties of a second run\<close>

lemma LocalPath_local [simp]: "LocalPath (object\<lparr>local := b\<rparr>) tmp = LocalPath object tmp"
  by (simp add: LocalPath_def)

lemma body_local [simp]: "body remote (object\<lparr>local := b\<rparr>) = body remote object"
  by (simp add: body_def)

lemma isLocal_local [simp]: "isLocal fs tmp (object\<lparr>local := b\<rparr>) = isLocal fs tmp object"
  by (simp add: isLocal_def split: sum.splits)

lemma emitObject_local [simp]:
  "emitObject inflate tmp fs (object\<lparr>local := b\<rparr>) = emitObject inflate tmp fs object"
  by (simp add: emitObject_def)

lemma emit_lines_local:
  "map snd (fst (emit inflate tmp fs (map (\<lambda>object. object\<lparr>local := f object\<rparr>) objects))) =
     map snd (fst (emit inflate tmp fs objects)) \<and>
   snd (emit inflate tmp fs (map (\<lambda>object. object\<lparr>local := f object\<rparr>) objects)) =
     snd (emit inflate tmp fs objects)"
  by (induction objects) (auto split: sum.splits prod.splits)

lemma todoOf_checkLocal:
  "todoOf (checkLocal fs tmp objects) =
     map (\<lambda>object. object\<lparr>local := False\<rparr>) (filter (\<lambda>object. \<not> isLocal fs tmp object) objects)"
  by (induction objects) (auto simp: todoOf_def checkLocal_def)

lemma run_no_tasks:
  "run cap tmp remote [] evs s = Some s' \<Longrightarrow> evs = [] \<and> s' = s"
  by (cases evs) (auto simp: step_def split: if_splits event.splits)

lemma Stat_same:
  "nodes fs' p = Some n \<Longrightarrow> dirSize fs' = dirSize fs \<Longrightarrow> nodes fs p = Some n \<Longrightarrow>
   Stat fs' p = Stat fs p"
  by (simp add: Stat_def split: node.splits)


lemma abc_not_local: "checkLocal emptyDisk ''/t'' abc = abc"
  by (simp add: checkLocal_def isLocal_def Stat_def emptyDisk_def abc_def)



end
